theory Spec2Isabelle
  imports Main "HOL-Library.Char_ord" "HOL-Library.List_Lexorder"
begin

section \<open>Data model (RadixNode.h, RadixTrie.h)\<close>

text \<open>
  A \<open>RadixNode\<close> owns its children through a vector of pairs (first byte, node).  The
  non-owning \<open>parent\<close> pointer of the source always designates the owner of the node
  (it is set to the owner wherever a node is created or moved: \<open>insert\<close>, \<open>split_node\<close>),
  so the model does not store it: a pointer to a node is the path of child indices from
  the root, and the parent of a node is the node at the path without its last index.
\<close>

datatype RadixNode = RadixNode
  (key: string)
  (is_end: bool)
  (parent_char: char)
  (children: "(char \<times> RadixNode) list")

text \<open>
  \<open>size_t word_count_\<close> is a natural number here.  The only decrement (in \<open>remove\<close>)
  runs after a terminal node was found; on reachable states the counter is the number of
  terminal nodes, hence positive there.
\<close>

record RadixTrie =
  root :: RadixNode
  word_count :: nat

text \<open>
  The source orders child keys with \<open><\<close> on plain \<open>char\<close>.  Whether plain \<open>char\<close> is signed
  is fixed by the target ABI (signed on x86-64, unsigned on AArch64 Linux), so the model takes
  it as a parameter.  \<open>char_val\<close> is the value of a \<open>char\<close> after integral promotion.
\<close>

datatype plain_char = SignedChar | UnsignedChar

fun char_val :: "plain_char \<Rightarrow> char \<Rightarrow> int" where
  "char_val UnsignedChar c = of_char c"
| "char_val SignedChar c = (if (of_char c :: int) < 128 then of_char c else of_char c - 256)"

definition char_less :: "plain_char \<Rightarrow> char \<Rightarrow> char \<Rightarrow> bool" where
  "char_less pc a b = (char_val pc a < char_val pc b)"

definition set_key :: "RadixNode \<Rightarrow> string \<Rightarrow> RadixNode" where
  "set_key n k = RadixNode k (is_end n) (parent_char n) (children n)"

definition set_is_end :: "RadixNode \<Rightarrow> bool \<Rightarrow> RadixNode" where
  "set_is_end n e = RadixNode (key n) e (parent_char n) (children n)"

definition set_parent_char :: "RadixNode \<Rightarrow> char \<Rightarrow> RadixNode" where
  "set_parent_char n c = RadixNode (key n) (is_end n) c (children n)"

definition set_children :: "RadixNode \<Rightarrow> (char \<times> RadixNode) list \<Rightarrow> RadixNode" where
  "set_children n cs = RadixNode (key n) (is_end n) (parent_char n) cs"

text \<open>The default-constructed node: empty key, not terminal, \<open>parent_char = '\0'\<close>.\<close>

definition empty_node :: RadixNode where
  "empty_node = RadixNode [] False (CHR 0x00) []"

text \<open>\<open>RadixTrie::RadixTrie()\<close> and the state \<open>clear()\<close> leaves.\<close>

definition empty_trie :: RadixTrie where
  "empty_trie = \<lparr>root = empty_node, word_count = 0\<rparr>"

definition clear :: "RadixTrie \<Rightarrow> RadixTrie" where
  "clear t = \<lparr>root = empty_node, word_count = 0\<rparr>"

definition empty :: "RadixTrie \<Rightarrow> bool" where
  "empty t = (word_count t = 0)"

definition size_trie :: "RadixTrie \<Rightarrow> nat" where
  "size_trie t = word_count t"

section \<open>Lookup primitives\<close>

text \<open>
  \<open>find_child\<close> is \<open>std::lower_bound\<close> over the child vector with the comparison
  \<open>p.first < key\<close>, which reads only the first component of each pair.  The iterator it
  returns is modelled by its index, the number of leading keys that are less than \<open>c\<close>
  (the partition point, which is what \<open>std::lower_bound\<close> returns on the sorted vectors
  the trie maintains).  The index \<open>length (children node)\<close> is \<open>end()\<close>.
\<close>

definition lower_bound :: "plain_char \<Rightarrow> char list \<Rightarrow> char \<Rightarrow> nat" where
  "lower_bound pc ks c = length (takeWhile (\<lambda>k. char_less pc k c) ks)"

definition find_child :: "plain_char \<Rightarrow> RadixNode \<Rightarrow> char \<Rightarrow> nat" where
  "find_child pc node c = lower_bound pc (map fst (children node)) c"

text \<open>The test \<open>it == children.end() || it->first != first_char\<close> that follows each call.\<close>

definition no_child :: "RadixNode \<Rightarrow> nat \<Rightarrow> char \<Rightarrow> bool" where
  "no_child node i c = (i \<ge> length (children node) \<or> fst (children node ! i) \<noteq> c)"

fun common_prefix_length :: "string \<Rightarrow> string \<Rightarrow> nat" where
  "common_prefix_length (x # xs) (y # ys) =
     (if x = y then Suc (common_prefix_length xs ys) else 0)"
| "common_prefix_length _ _ = 0"

lemma size_child_less:
  "i < length cs \<Longrightarrow> size (snd (cs ! i)) < size (RadixNode k e p cs)"
proof (induction cs arbitrary: i)
  case Nil
  then show ?case by simp
next
  case (Cons c cs)
  show ?case
  proof (cases i)
    case 0
    then show ?thesis by (cases c) simp
  next
    case (Suc j)
    with Cons.prems have "j < length cs" by simp
    from Cons.IH[OF this] Suc show ?thesis by simp
  qed
qed

lemma size_child_less':
  "i < length (children n) \<Longrightarrow> size (snd (children n ! i)) < size n"
  by (cases n) (simp add: size_child_less del: RadixNode.size)

text \<open>
  The descent loop shared by \<open>find_node\<close> and \<open>cleanup_orphaned_nodes\<close> (the two loops
  are the same text in the source).  \<open>rem\<close> is \<open>word.substr(pos)\<close>; the result is the
  path from \<open>current\<close> to the node reached, or \<open>None\<close> for \<open>nullptr\<close>.
\<close>

function descend :: "plain_char \<Rightarrow> RadixNode \<Rightarrow> string \<Rightarrow> nat list option" where
  "descend pc current rem =
     (if rem = [] then Some []
      else
        let first_char = hd rem; it = find_child pc current first_char in
        if no_child current it first_char then None
        else
          let child = snd (children current ! it); child_key = key child in
          if length child_key > length rem then None
          else if take (length child_key) rem \<noteq> child_key then None
          else map_option ((#) it) (descend pc child (drop (length child_key) rem)))"
  by pat_completeness auto
termination
  by (relation "measure (\<lambda>(pc, current, rem). size current)")
     (auto simp: no_child_def size_child_less' simp del: RadixNode.size)

declare descend.simps [simp del]

definition find_node :: "plain_char \<Rightarrow> RadixTrie \<Rightarrow> string \<Rightarrow> nat list option" where
  "find_node pc t word = (if word = [] then None else descend pc (root t) word)"

text \<open>Dereferencing a node pointer, and writing through it.\<close>

fun node_at :: "RadixNode \<Rightarrow> nat list \<Rightarrow> RadixNode" where
  "node_at n [] = n"
| "node_at n (i # p) = node_at (snd (children n ! i)) p"

fun update_at :: "RadixNode \<Rightarrow> nat list \<Rightarrow> (RadixNode \<Rightarrow> RadixNode) \<Rightarrow> RadixNode" where
  "update_at n [] f = f n"
| "update_at n (i # p) f =
     set_children n ((children n)[i := (fst (children n ! i),
                                        update_at (snd (children n ! i)) p f)])"

definition search :: "plain_char \<Rightarrow> RadixTrie \<Rightarrow> string \<Rightarrow> bool" where
  "search pc t word =
     (case find_node pc t word of
        None \<Rightarrow> False
      | Some p \<Rightarrow> is_end (node_at (root t) p))"

section \<open>insert and split_node\<close>

text \<open>
  \<open>split_node\<close> replaces the child of \<open>current\<close> stored under \<open>first_char\<close> by an
  intermediate node that carries the first \<open>common_len\<close> bytes of the child's key and has
  the child, with the rest of its key, as only child.
\<close>

definition split_node :: "plain_char \<Rightarrow> RadixNode \<Rightarrow> char \<Rightarrow> nat \<Rightarrow> string \<Rightarrow> RadixNode" where
  "split_node pc current first_char common_len child_key =
     (let intermediate = RadixNode (take common_len child_key) False first_char [];
          it = find_child pc current first_char;
          old_child = set_key (snd (children current ! it)) (drop common_len child_key);
          old_first_char = (case key old_child of [] \<Rightarrow> CHR 0x00 | c # _ \<Rightarrow> c);
          insert_pos = find_child pc intermediate old_first_char;
          intermediate' = set_children intermediate
             (take insert_pos (children intermediate)
              @ [(old_first_char, set_parent_char old_child old_first_char)]
              @ drop insert_pos (children intermediate))
      in set_children current
           ((children current)[it := (fst (children current ! it), intermediate')]))"

text \<open>Writing a node through the slot \<open>it->second\<close> of a child vector.\<close>

definition put_child :: "RadixNode \<Rightarrow> nat \<Rightarrow> RadixNode \<Rightarrow> RadixNode" where
  "put_child n i c = set_children n ((children n)[i := (fst (children n ! i), c)])"

lemma cpl_le1: "common_prefix_length a b \<le> length a"
  by (induction a b rule: common_prefix_length.induct) auto

lemma cpl_le2: "common_prefix_length a b \<le> length b"
  by (induction a b rule: common_prefix_length.induct) auto

lemma cpl_mismatch:
  "common_prefix_length a b < length a \<Longrightarrow> common_prefix_length a b < length b \<Longrightarrow>
   a ! common_prefix_length a b \<noteq> b ! common_prefix_length a b"
  by (induction a b rule: common_prefix_length.induct) (auto split: if_splits)

lemma cpl_take: "take (common_prefix_length a b) a = take (common_prefix_length a b) b"
  by (induction a b rule: common_prefix_length.induct) auto

definition has_child :: "plain_char \<Rightarrow> RadixNode \<Rightarrow> string \<Rightarrow> bool" where
  "has_child pc cur rem = (rem \<noteq> [] \<and> \<not> no_child cur (find_child pc cur (hd rem)) (hd rem))"

lemma children_split_node:
  "children (split_node pc current fc cl ck) =
    (children current)[find_child pc current fc := (fst (children current ! find_child pc current fc),
       RadixNode (take cl ck) False fc
         [(case drop cl ck of [] \<Rightarrow> CHR 0x00 | c # _ \<Rightarrow> c,
           set_parent_char (set_key (snd (children current ! find_child pc current fc)) (drop cl ck))
              (case drop cl ck of [] \<Rightarrow> CHR 0x00 | c # _ \<Rightarrow> c))])]"
  by (simp add: split_node_def Let_def set_children_def set_key_def find_child_def lower_bound_def)

lemma map_fst_update: "map fst (cs[i := (fst (cs ! i), c)]) = map fst cs"
  by (induction cs arbitrary: i) (auto split: nat.splits)

lemma find_child_list_update:
  "find_child pc (set_children n ((children n)[i := (fst (children n ! i), c)])) x = find_child pc n x"
  by (simp add: find_child_def set_children_def map_fst_update)

lemma find_child_split_node:
  "find_child pc (split_node pc current fc cl ck) fc = find_child pc current fc"
  unfolding split_node_def Let_def by (rule find_child_list_update)


lemma size_child_measure:
  "\<not> no_child cur i c \<Longrightarrow> 2 * size (snd (children cur ! i)) + 1 < 2 * size cur"
  using size_child_less'[of i cur] by (simp add: no_child_def del: RadixNode.size)

lemma size_list_nth_le:
  "i < length cs \<Longrightarrow> Suc (f (cs ! i)) \<le> size_list f cs"
proof (induction cs arbitrary: i)
  case Nil
  then show ?case by simp
next
  case (Cons c cs)
  show ?case
  proof (cases i)
    case 0
    then show ?thesis by simp
  next
    case (Suc j)
    with Cons.prems have "j < length cs" by simp
    from Cons.IH[OF this] Suc show ?thesis by simp
  qed
qed

lemma size_split_inter:
  assumes "\<not> no_child cur (find_child pc cur fc) fc"
  shows "size (snd (children (split_node pc cur fc cl ck) ! find_child pc cur fc)) \<le> size cur"
proof -
  let ?i = "find_child pc cur fc"
  from assms have i: "?i < length (children cur)" by (simp add: no_child_def)
  obtain k e p cs where cur: "cur = RadixNode k e p cs" by (cases cur)
  obtain a b where ab: "cs ! ?i = (a, b)" by (cases "cs ! ?i")
  from i cur have "Suc (size_prod (\<lambda>x. 0) size (cs ! ?i)) \<le> size_list (size_prod (\<lambda>x. 0) size) cs"
    by (intro size_list_nth_le) simp
  with ab have "Suc (Suc (size b)) \<le> size_list (size_prod (\<lambda>x. 0) size) cs" by simp
  moreover have "size (set_parent_char (set_key b k') c') = size b" for k' c'
    by (cases b) (simp add: set_parent_char_def set_key_def)
  ultimately show ?thesis
    using i cur ab by (simp add: children_split_node)
qed

lemma hd_drop_nth: "n < length xs \<Longrightarrow> hd (drop n xs) = xs ! n"
  by (simp add: hd_drop_conv_nth)

lemma no_child_split_inter:
  assumes "common_prefix_length ck rem \<noteq> length ck" "common_prefix_length ck rem \<noteq> length rem"
    and "\<not> no_child cur (find_child pc cur fc) fc"
  shows "\<not> has_child pc (snd (children (split_node pc cur fc (common_prefix_length ck rem) ck)
            ! find_child pc cur fc)) (drop (common_prefix_length ck rem) rem)"
proof -
  let ?cl = "common_prefix_length ck rem"
  from assms cpl_le1[of ck rem] cpl_le2[of ck rem]
  have lt: "?cl < length ck" "?cl < length rem" by simp_all
  then have ne: "ck ! ?cl \<noteq> rem ! ?cl" by (rule cpl_mismatch)
  from lt obtain d ds where d: "drop ?cl ck = d # ds" "d = ck ! ?cl"
    by (metis Cons_nth_drop_Suc)
  from assms(3) have i: "find_child pc cur fc < length (children cur)" by (simp add: no_child_def)
  show ?thesis
    using lt ne d i
    by (auto simp: has_child_def children_split_node no_child_def find_child_def lower_bound_def hd_drop_nth)
qed

function insert_loop :: "plain_char \<Rightarrow> RadixNode \<Rightarrow> string \<Rightarrow> RadixNode \<times> bool" where
  "insert_loop pc current rem =
    (if rem = [] then (current, False)
     else
       let first_char = hd rem; it = find_child pc current first_char in
       if no_child current it first_char then
         (set_children current
            (take it (children current)
             @ [(first_char, RadixNode rem True first_char [])]
             @ drop it (children current)), True)
       else
         let child = snd (children current ! it); child_key = key child;
             common_len = common_prefix_length child_key rem in
         if common_len = length child_key then
           (if common_len = length rem then
              (if \<not> is_end child then (put_child current it (set_is_end child True), True)
               else (current, False))
            else
              (case insert_loop pc child (drop common_len rem) of
                 (child', grew) \<Rightarrow> (put_child current it child', grew)))
         else
           let current' = split_node pc current first_char common_len child_key;
               it' = find_child pc current' first_char;
               inter = snd (children current' ! it')
           in if common_len = length rem then
                (if \<not> is_end inter then (put_child current' it' (set_is_end inter True), True)
                 else (current', False))
              else
                (case insert_loop pc inter (drop common_len rem) of
                   (inter', grew) \<Rightarrow> (put_child current' it' inter', grew)))"
  by pat_completeness auto
termination
  apply (relation "measures [\<lambda>(pc, cur, rem). length rem,
            \<lambda>(pc, cur, rem). 2 * size cur + (if has_child pc cur rem then 1 else 0)]")
  subgoal by simp
  subgoal for pc current rem
    using size_child_measure[of current "find_child pc current (hd rem)" "hd rem"]
    by (auto simp del: RadixNode.size)
  subgoal for pc current rem
    using size_split_inter[of current pc "hd rem"
            "common_prefix_length (key (snd (children current ! find_child pc current (hd rem)))) rem"
            "key (snd (children current ! find_child pc current (hd rem)))"]
          no_child_split_inter[of "key (snd (children current ! find_child pc current (hd rem)))" rem current pc "hd rem"]
    by (auto simp: find_child_split_node has_child_def simp del: RadixNode.size)
  done

declare insert_loop.simps [simp del]

definition insert_trie :: "plain_char \<Rightarrow> RadixTrie \<Rightarrow> string \<Rightarrow> RadixTrie" where
  "insert_trie pc t word =
     (if word = [] then t
      else case insert_loop pc (root t) word of
             (r, grew) \<Rightarrow> \<lparr>root = r,
                            word_count = (if grew then Suc (word_count t) else word_count t)\<rparr>)"

section \<open>remove and cleanup_orphaned_nodes\<close>

text \<open>
  \<open>parent->children.erase(pit)\<close>, guarded by
  \<open>pit != parent->children.end() && pit->first == char_to_remove\<close>.
\<close>

definition erase_child :: "plain_char \<Rightarrow> RadixNode \<Rightarrow> char \<Rightarrow> RadixNode" where
  "erase_child pc parent char_to_remove =
     (let pit = find_child pc parent char_to_remove in
      if \<not> no_child parent pit char_to_remove
      then set_children parent (take pit (children parent) @ drop (Suc pit) (children parent))
      else parent)"

text \<open>
  The upward loop of \<open>cleanup_orphaned_nodes\<close>: \<open>path\<close> points to \<open>current\<close>; the root
  is the only node without a parent.
\<close>

function cleanup_up :: "plain_char \<Rightarrow> RadixNode \<Rightarrow> nat list \<Rightarrow> RadixNode" where
  "cleanup_up pc r path =
     (if path = [] then r
      else
        let current = node_at r path; char_to_remove = parent_char current in
        if children current = [] \<and> \<not> is_end current then
          cleanup_up pc
            (update_at r (butlast path) (\<lambda>parent. erase_child pc parent char_to_remove))
            (butlast path)
        else r)"
  by pat_completeness auto
termination
  by (relation "measure (\<lambda>(pc, r, path). length path)") auto

declare cleanup_up.simps [simp del]

definition cleanup_orphaned_nodes :: "plain_char \<Rightarrow> RadixTrie \<Rightarrow> string \<Rightarrow> RadixTrie" where
  "cleanup_orphaned_nodes pc t word =
     (if word = [] then t
      else case descend pc (root t) word of
             None \<Rightarrow> t
           | Some path \<Rightarrow>
               if is_end (node_at (root t) path)
               then t\<lparr>root := cleanup_up pc (root t) path\<rparr>
               else t)"

text \<open>\<open>remove\<close> returns its boolean together with the state it leaves.\<close>

definition remove_trie :: "plain_char \<Rightarrow> RadixTrie \<Rightarrow> string \<Rightarrow> bool \<times> RadixTrie" where
  "remove_trie pc t word =
     (if word = [] then (False, t)
      else case find_node pc t word of
             None \<Rightarrow> (False, t)
           | Some p \<Rightarrow>
               if is_end (node_at (root t) p)
               then (True,
                     cleanup_orphaned_nodes pc
                       (t\<lparr>root := update_at (root t) p (\<lambda>n. set_is_end n False),
                          word_count := word_count t - 1\<rparr>) word)
               else (False, t))"

section \<open>Prefix enumeration\<close>

text \<open>
  \<open>collect_words_from_node\<close> returns the words it pushes onto \<open>result\<close>, in push order.
\<close>

fun collect_words_from_node :: "RadixNode \<Rightarrow> string \<Rightarrow> string list" where
  "collect_words_from_node (RadixNode k e pch cs) prefix =
     (let full_word = prefix @ k in
      (if e then [full_word] else [])
      @ concat (map (\<lambda>p. collect_words_from_node (snd p) full_word) cs))"

function wwp_loop :: "plain_char \<Rightarrow> string \<Rightarrow> RadixNode \<Rightarrow> nat \<Rightarrow> string list" where
  "wwp_loop pc prefix current pos =
     (if pos < length prefix then
        let first_char = prefix ! pos; it = find_child pc current first_char in
        if no_child current it first_char then []
        else
          let child = snd (children current ! it); child_key = key child in
          if pos + length child_key > length prefix then
            (if drop pos prefix = take (length prefix - pos) child_key
             then collect_words_from_node child (take pos prefix)
             else [])
          else if take (length child_key) (drop pos prefix) \<noteq> child_key then []
          else wwp_loop pc prefix child (pos + length child_key)
      else if pos = length prefix then
        let base_prefix =
              (if key current \<noteq> [] \<and> length prefix \<ge> length (key current)
               then take (length prefix - length (key current)) prefix
               else prefix)
        in collect_words_from_node current base_prefix
      else [])"
  by pat_completeness auto
termination
  by (relation "measure (\<lambda>(pc, prefix, current, pos). size current)")
     (auto simp: no_child_def size_child_less' simp del: RadixNode.size)

declare wwp_loop.simps [simp del]

definition words_with_prefix :: "plain_char \<Rightarrow> RadixTrie \<Rightarrow> string \<Rightarrow> string list" where
  "words_with_prefix pc t prefix =
     (if prefix = [] then collect_words_from_node (root t) []
      else wwp_loop pc prefix (root t) 0)"

section \<open>Analytics\<close>

text \<open>
  The recursive helpers return the values they push onto their output vector, in push
  order.  The source computes them in \<open>int\<close> (32 bits); here they are computed in the
  unbounded integers, and \<open>depths_fit\<close> and \<open>lengths_fit\<close> below say when every value
  the source computes on the way lies in the range of \<open>int\<close>, so that it is the value
  computed here.
\<close>

fun calculate_heights_recursive :: "RadixNode \<Rightarrow> int \<Rightarrow> int list" where
  "calculate_heights_recursive (RadixNode k e pch cs) current_depth =
     (if e then [current_depth] else [])
     @ concat (map (\<lambda>p. calculate_heights_recursive (snd p) (current_depth + 1)) cs)"

fun collect_word_lengths_recursive :: "RadixNode \<Rightarrow> int \<Rightarrow> int list" where
  "collect_word_lengths_recursive (RadixNode k e pch cs) current_length =
     (let new_length = current_length + int (length k) in
      (if e then [new_length] else [])
      @ concat (map (\<lambda>p. collect_word_lengths_recursive (snd p) new_length) cs))"

text \<open>
  The mode is computed through a \<open>std::unordered_map<int, int>\<close>: every sample increments
  \<open>frequency[sample]\<close> (a missing key starts at 0), then the map is iterated and the first
  entry whose count exceeds the running maximum wins.  The language leaves the iteration
  order of an unordered map unspecified; the model takes it as the parameter \<open>ord\<close>, which
  maps the keys in order of first insertion to the order in which the map enumerates them.
\<close>

definition frequency :: "int list \<Rightarrow> int \<Rightarrow> int" where
  "frequency samples = foldl (\<lambda>m x. m(x := m x + 1)) (\<lambda>_. 0) samples"

definition inserted_keys :: "int list \<Rightarrow> int list" where
  "inserted_keys samples = rev (remdups (rev samples))"

text \<open>
  The selection loop; the state is \<open>(max_count, mode)\<close>, where \<open>None\<close> stands for the
  field that has not been assigned yet.
\<close>

definition mode_step :: "(int \<Rightarrow> int) \<Rightarrow> int \<times> int option \<Rightarrow> int \<Rightarrow> int \<times> int option" where
  "mode_step freq st k =
     (if freq k > fst st then (freq k, Some k) else st)"

definition mode_of :: "(int list \<Rightarrow> int list) \<Rightarrow> int list \<Rightarrow> int option" where
  "mode_of ord samples =
     snd (foldl (mode_step (frequency samples)) (0, None) (ord (inserted_keys samples)))"

text \<open>
  \<open>std::min_element\<close> and \<open>std::max_element\<close> over a non-empty vector.
\<close>

definition min_element :: "int list \<Rightarrow> int" where
  "min_element xs = foldl min (hd xs) (tl xs)"

definition max_element :: "int list \<Rightarrow> int" where
  "max_element xs = foldl max (hd xs) (tl xs)"

text \<open>
  \<open>INT_MAX\<close>, and the tests that the \<open>int\<close> arithmetic of the source is exact.

  \<open>depths_fit\<close>: every \<open>current_depth + 1\<close> passed to a child fits.  \<open>lengths_fit\<close>:
  at every node, \<open>static_cast<int>(node->key.length())\<close> keeps its value and the sum
  \<open>new_length\<close> fits (\<open>current_length\<close> starts at 0 and never decreases).  \<open>counts_fit\<close>:
  no counter behind \<open>frequency[sample]++\<close> (and \<open>length_distribution[length]++\<close>, the
  same counts) is incremented beyond \<open>INT_MAX\<close>.
\<close>

definition int_max :: int where
  "int_max = 2147483647"

fun depths_fit :: "RadixNode \<Rightarrow> int \<Rightarrow> bool" where
  "depths_fit (RadixNode k e pch cs) current_depth =
     (\<forall>p \<in> set cs. current_depth + 1 \<le> int_max \<and> depths_fit (snd p) (current_depth + 1))"

fun lengths_fit :: "RadixNode \<Rightarrow> int \<Rightarrow> bool" where
  "lengths_fit (RadixNode k e pch cs) current_length =
     (let new_length = current_length + int (length k) in
      int (length k) \<le> int_max \<and> new_length \<le> int_max
      \<and> (\<forall>p \<in> set cs. lengths_fit (snd p) new_length))"

definition counts_fit :: "int list \<Rightarrow> bool" where
  "counts_fit samples = (\<forall>x \<in> set samples. frequency samples x \<le> int_max)"

text \<open>
  The result records without their floating-point averages.  The statistics functions
  return \<open>None\<close> where the source returns no result that is defined and computed
  exactly:
  \<^item> \<open>word_count_\<close> is not zero but no terminal node exists, so that an end iterator
    would be dereferenced (no reachable state is like that);
  \<^item> a value computed in \<open>int\<close> leaves the range of \<open>int\<close>: a depth, a length or a
    counter (the tests above), in \<open>get_word_metrics\<close> also the sum that
    \<open>std::accumulate(lengths.begin(), lengths.end(), 0)\<close> builds in \<open>int\<close> and the
    \<open>max_length + 1\<close> passed to \<open>resize\<close>.  Signed overflow is undefined behaviour in
    C++ (in practice the value wraps), and everything computed from such a value is
    outside this model.
\<close>

record HeightStats =
  min_height :: int
  max_height :: int
  mode_height :: int
  all_heights :: "int list"

definition get_height_stats :: "(int list \<Rightarrow> int list) \<Rightarrow> RadixTrie \<Rightarrow> HeightStats option" where
  "get_height_stats ord t =
     (if empty t
      then Some \<lparr>min_height = 0, max_height = 0, mode_height = 0, all_heights = []\<rparr>
      else if \<not> depths_fit (root t) 0 then None
      else
        let heights = calculate_heights_recursive (root t) 0 in
        if heights = [] then None
        else if \<not> counts_fit heights then None
        else case mode_of ord heights of
               None \<Rightarrow> None
             | Some m \<Rightarrow>
                 Some \<lparr>min_height = min_element heights, max_height = max_element heights,
                       mode_height = m, all_heights = heights\<rparr>)"

record WordMetrics =
  min_length :: int
  max_length :: int
  mode_length :: int
  length_distribution :: "int list"
  total_characters :: int

definition get_word_metrics :: "(int list \<Rightarrow> int list) \<Rightarrow> RadixTrie \<Rightarrow> WordMetrics option" where
  "get_word_metrics ord t =
     (if empty t
      then Some \<lparr>min_length = 0, max_length = 0, mode_length = 0,
                  length_distribution = [], total_characters = 0\<rparr>
      else if \<not> lengths_fit (root t) 0 then None
      else
        let lengths = collect_word_lengths_recursive (root t) 0 in
        if lengths = [] then None
        else if int_max < sum_list lengths then None
        else if \<not> counts_fit lengths then None
        else if int_max < max_element lengths + 1 then None
        else case mode_of ord lengths of
               None \<Rightarrow> None
             | Some m \<Rightarrow>
                 Some \<lparr>min_length = min_element lengths, max_length = max_element lengths,
                       mode_length = m,
                       length_distribution =
                         foldl (\<lambda>d l. d[nat l := d ! nat l + 1])
                               (replicate (nat (max_element lengths + 1)) 0) lengths,
                       total_characters = sum_list lengths\<rparr>)"

section \<open>Wildcard matcher\<close>

text \<open>
  \<open>matches_pattern\<close>: the arguments are \<open>word.substr(word_idx)\<close> and
  \<open>pattern.substr(pattern_idx)\<close>, so that one turn of the \<open>while\<close> loop is a call on the
  shorter suffixes.  The first equation is the code after the loop when the word is used
  up (trailing stars are skipped), the second when only the pattern is used up.
\<close>

function matches_pattern :: "string \<Rightarrow> string \<Rightarrow> bool" where
  "matches_pattern [] pattern = (dropWhile (\<lambda>c. c = CHR ''*'') pattern = [])"
| "matches_pattern (w # ws) [] = False"
| "matches_pattern (w # ws) (p # ps) =
     (if p = CHR ''?'' then matches_pattern ws ps
      else if p = CHR ''*'' then
        (if ps = [] then True
         else list_ex (\<lambda>i. matches_pattern (drop i (w # ws)) ps) [0..<Suc (length (w # ws))])
      else if p = w then matches_pattern ws ps
      else False)"
  by pat_completeness auto
termination
  by (relation "measure (\<lambda>(word, pattern). length pattern)") auto

fun pattern_match_recursive :: "RadixNode \<Rightarrow> string \<Rightarrow> string \<Rightarrow> string list" where
  "pattern_match_recursive (RadixNode k e pch cs) current_word pattern =
     (let full_word = current_word @ k in
      (if e \<and> matches_pattern full_word pattern then [full_word] else [])
      @ concat (map (\<lambda>p. pattern_match_recursive (snd p) full_word pattern) cs))"

text \<open>
  \<open>std::sort\<close> on \<open>std::string\<close> orders by \<open>operator<\<close>, the lexicographic order of the
  bytes read as unsigned values; this is the order of \<open>char list\<close> here.
\<close>

definition pattern_search :: "RadixTrie \<Rightarrow> string \<Rightarrow> string list" where
  "pattern_search t pattern =
     (if pattern = [] \<or> empty t then []
      else sort (pattern_match_recursive (root t) [] pattern))"

section \<open>Streaming ingest\<close>

text \<open>\<open>std::isspace\<close> in the "C" locale: space and the bytes 0x09 to 0x0D.\<close>

definition isspace :: "char \<Rightarrow> bool" where
  "isspace c = (let n = (of_char c :: nat) in n = 32 \<or> (9 \<le> n \<and> n \<le> 13))"

definition is_delim :: "char \<Rightarrow> bool" where
  "is_delim c = (c = CHR 0x0A \<or> c = CHR 0x0D)"

text \<open>
  The two trimming loops: first \<open>e\<close> moves left over trailing white space, then \<open>b\<close>
  moves right over leading white space; the view \<open>[b, e)\<close> is what remains.
\<close>

definition trim :: "string \<Rightarrow> string" where
  "trim s = dropWhile isspace (rev (dropWhile isspace (rev s)))"

text \<open>
  Trim a record, and if something remains insert it and count it.  The state of the
  ingest is the trie, \<open>words_inserted\<close> and \<open>carry\<close>.
\<close>

definition insert_trimmed :: "plain_char \<Rightarrow> string \<Rightarrow> RadixTrie \<times> nat \<Rightarrow> RadixTrie \<times> nat" where
  "insert_trimmed pc s st =
     (let word_view = trim s in
      if word_view \<noteq> [] then (insert_trie pc (fst st) word_view, Suc (snd st)) else st)"

text \<open>The inner \<open>while\<close> that skips consecutive CR/LF bytes inside the buffer.\<close>

definition skip_delims :: "string \<Rightarrow> nat \<Rightarrow> nat" where
  "skip_delims buffer i = i + length (takeWhile is_delim (drop (Suc i) buffer))"

text \<open>
  The \<open>for\<close> loop over one buffer of \<open>bytes_read = length buffer\<close> bytes.  It returns the
  final \<open>line_start\<close> with the state.
\<close>

function scan_buffer ::
  "plain_char \<Rightarrow> string \<Rightarrow> nat \<Rightarrow> nat \<Rightarrow> RadixTrie \<times> nat \<times> string
     \<Rightarrow> nat \<times> RadixTrie \<times> nat \<times> string" where
  "scan_buffer pc buffer i line_start (t, words_inserted, carry) =
     (if i < length buffer then
        if is_delim (buffer ! i) then
          let seg_len = i - line_start;
              seg = take seg_len (drop line_start buffer);
              st' =
                (if seg_len > 0 \<or> carry \<noteq> [] then
                   (if carry \<noteq> [] then
                      (case insert_trimmed pc (carry @ seg) (t, words_inserted) of
                         (t', n') \<Rightarrow> (t', n', []))
                    else
                      (case insert_trimmed pc seg (t, words_inserted) of
                         (t', n') \<Rightarrow> (t', n', carry)))
                 else (t, words_inserted, carry));
              j = skip_delims buffer i
          in scan_buffer pc buffer (Suc j) (Suc j) st'
        else scan_buffer pc buffer (Suc i) line_start (t, words_inserted, carry)
      else (line_start, t, words_inserted, carry))"
  by pat_completeness auto
termination
  by (relation "measure (\<lambda>(pc, buffer, i, line_start, st). length buffer - i)")
     (auto simp: skip_delims_def)

declare scan_buffer.simps [simp del]

text \<open>
  The outer loop: \<open>file\<close> is what is left of the stream.  A read delivers the next
  \<open>buffer_size\<close> bytes, or fewer at the end of the stream; the loop stops at the first
  read that delivers nothing.
\<close>

function read_loop ::
  "plain_char \<Rightarrow> nat \<Rightarrow> string \<Rightarrow> RadixTrie \<times> nat \<times> string \<Rightarrow> RadixTrie \<times> nat \<times> string" where
  "read_loop pc buffer_size file st =
     (let buffer = take buffer_size file in
      if buffer = [] then st
      else
        case scan_buffer pc buffer 0 0 st of
          (line_start, t, words_inserted, carry) \<Rightarrow>
            read_loop pc buffer_size (drop buffer_size file)
              (t, words_inserted,
               if line_start < length buffer then carry @ drop line_start buffer else carry))"
  by pat_completeness auto
termination
  by (relation "measure (\<lambda>(pc, buffer_size, file, st). length file)") auto

declare read_loop.simps [simp del]

datatype error = OpenFailed | AllocFailed

text \<open>
  The buffer is allocated on the heap by \<open>std::make_unique<char[]>(buffer_size)\<close>, which
  throws (\<open>std::bad_alloc\<close>, \<open>std::bad_array_new_length\<close>) when the request cannot be
  served; the null test that follows it never fires.  Whether a request of \<open>n\<close> bytes is
  served is a fact of the machine, the parameter \<open>alloc_ok\<close>.  On the 64-bit targets of
  the addon no object is larger than \<open>PTRDIFF_MAX\<close> bytes, which is also the largest
  \<open>std::streamsize\<close>, the type \<open>buffer_size\<close> is converted to in \<open>file.read\<close>; a larger
  request always fails.
\<close>

definition streamsize_max :: nat where
  "streamsize_max = 2 ^ 63 - 1"

definition allocates :: "(nat \<Rightarrow> bool) \<Rightarrow> nat \<Rightarrow> bool" where
  "allocates alloc_ok n = (n \<le> streamsize_max \<and> alloc_ok n)"

text \<open>
  The file is the byte string it holds, or \<open>None\<close> when it cannot be opened.  The file
  is opened first, then the buffer is allocated; either failure throws before anything
  is read or inserted.  The result is the returned count together with the trie state
  left.  (Memory exhaustion while a node or the carry string grows is not modelled, here
  as in \<open>insert\<close>; the buffer is, because its size is an argument.)
\<close>

definition bulk_insert_from_file ::
  "plain_char \<Rightarrow> (nat \<Rightarrow> bool) \<Rightarrow> RadixTrie \<Rightarrow> string option \<Rightarrow> nat
     \<Rightarrow> error + (nat \<times> RadixTrie)" where
  "bulk_insert_from_file pc alloc_ok t file buffer_size =
     (case file of
        None \<Rightarrow> Inl OpenFailed
      | Some bytes \<Rightarrow>
          if \<not> allocates alloc_ok buffer_size then Inl AllocFailed
          else
            (case read_loop pc buffer_size bytes (t, 0, []) of
               (t', words_inserted, carry) \<Rightarrow>
                 if carry \<noteq> [] then
                   (case insert_trimmed pc carry (t', words_inserted) of
                      (t'', n) \<Rightarrow> Inr (n, t''))
                 else Inr (words_inserted, t')))"

section \<open>Reachable states\<close>

text \<open>The states the public mutators produce from the freshly constructed trie.\<close>

inductive reachable :: "plain_char \<Rightarrow> RadixTrie \<Rightarrow> bool" for pc :: plain_char where
  reachable_init: "reachable pc empty_trie"
| reachable_insert: "reachable pc t \<Longrightarrow> reachable pc (insert_trie pc t w)"
| reachable_remove: "reachable pc t \<Longrightarrow> reachable pc (snd (remove_trie pc t w))"
| reachable_clear: "reachable pc t \<Longrightarrow> reachable pc (clear t)"
| reachable_bulk:
    "reachable pc t \<Longrightarrow> bulk_insert_from_file pc alloc_ok t file buffer_size = Inr (n, t')
     \<Longrightarrow> reachable pc t'"

section \<open>Auxiliary notions for the proofs\<close>

text \<open>
  The node \<open>insert\<close> leaves when no child starts with the next byte: a terminal leaf
  carrying the rest of the word, spliced in at the position \<open>find_child\<close> returned.
\<close>

definition add_leaf :: "plain_char \<Rightarrow> RadixNode \<Rightarrow> string \<Rightarrow> RadixNode" where
  "add_leaf pc n rem =
     set_children n
       (take (find_child pc n (hd rem)) (children n)
        @ [(hd rem, RadixNode rem True (hd rem) [])]
        @ drop (find_child pc n (hd rem)) (children n))"

text \<open>The intermediate node \<open>split_node\<close> builds, with the demoted child below it.\<close>

definition split_inter :: "RadixNode \<Rightarrow> char \<Rightarrow> nat \<Rightarrow> RadixNode" where
  "split_inter child c cl =
     RadixNode (take cl (key child)) False c
       [(key child ! cl, set_parent_char (set_key child (drop cl (key child))) (key child ! cl))]"

text \<open>A word is stored when the descent ends on a terminal node.\<close>

definition stored :: "plain_char \<Rightarrow> RadixNode \<Rightarrow> string \<Rightarrow> bool" where
  "stored pc n w = (case descend pc n w of None \<Rightarrow> False | Some p \<Rightarrow> is_end (node_at n p))"

text \<open>What \<open>remove\<close> does to the node it found.\<close>

definition clear_end :: "RadixNode \<Rightarrow> RadixNode" where
  "clear_end n = set_is_end n False"

text \<open>A path is valid when every index on it is inside the child vector it indexes.\<close>

fun valid_path :: "RadixNode \<Rightarrow> nat list \<Rightarrow> bool" where
  "valid_path n [] = True"
| "valid_path n (i # p) = (i < length (children n) \<and> valid_path (snd (children n ! i)) p)"

text \<open>
  The glob semantics in the words of the specification: a literal byte matches itself,
  \<open>?\<close> matches exactly one byte, \<open>*\<close> matches zero or more bytes (the \<open>k\<close> bytes it
  takes from the front of the word).
\<close>

fun spec_glob :: "string \<Rightarrow> string \<Rightarrow> bool" where
  "spec_glob [] w = (w = [])"
| "spec_glob (p # ps) w =
     (if p = CHR ''*'' then list_ex (\<lambda>k. spec_glob ps (drop k w)) [0..<Suc (length w)]
      else case w of [] \<Rightarrow> False | c # cs \<Rightarrow> (p = CHR ''?'' \<or> p = c) \<and> spec_glob ps cs)"

text \<open>
  Well-formed nodes: at every node the child keys are strictly ascending in the order of
  plain \<open>char\<close>, and every child has a non-empty key whose first byte is the key it is
  stored under and its \<open>parent_char\<close>.
\<close>

fun wf_node :: "plain_char \<Rightarrow> RadixNode \<Rightarrow> bool" where
  "wf_node pc (RadixNode k e pch cs) =
     (sorted_wrt (char_less pc) (map fst cs) \<and>
      (\<forall>p \<in> set cs. key (snd p) \<noteq> [] \<and> hd (key (snd p)) = fst p
           \<and> parent_char (snd p) = fst p \<and> wf_node pc (snd p)))"

text \<open>
  The record format in the words of the specification.  Records are the maximal runs of
  bytes other than \<open>\\n\<close> and \<open>\\r\<close> (a run of delimiters separates two records and
  yields no empty record); a record is trimmed of leading and trailing white space;
  records that are empty after trimming are skipped.
\<close>

function spec_records :: "string \<Rightarrow> string list" where
  "spec_records [] = []"
| "spec_records (c # s) =
     (if is_delim c then spec_records s
      else takeWhile (\<lambda>x. \<not> is_delim x) (c # s)
           # spec_records (dropWhile (\<lambda>x. \<not> is_delim x) s))"
  by pat_completeness auto
termination
  by (relation "measure length") (auto simp: length_dropWhile_le le_imp_less_Suc)

definition spec_trim :: "string \<Rightarrow> string" where
  "spec_trim s = rev (dropWhile isspace (rev (dropWhile isspace s)))"

definition spec_lines :: "string \<Rightarrow> string list" where
  "spec_lines s = filter (\<lambda>w. w \<noteq> []) (map spec_trim (spec_records s))"

text \<open>A machine that serves every request of at most \<open>limit\<close> bytes.\<close>

definition serves_up_to :: "nat \<Rightarrow> nat \<Rightarrow> bool" where
  "serves_up_to limit n = (n \<le> limit)"

text \<open>Inserting a list of words one after the other, counting the calls.\<close>

definition emit :: "plain_char \<Rightarrow> string list \<Rightarrow> RadixTrie \<times> nat \<Rightarrow> RadixTrie \<times> nat" where
  "emit pc ws st = (foldl (insert_trie pc) (fst st) ws, snd st + length ws)"

text \<open>What one raw record contributes: its trimmed form, unless that is empty.\<close>

definition record_of :: "string \<Rightarrow> string list" where
  "record_of r = (if trim r \<noteq> [] then [trim r] else [])"

text \<open>The unfinished record at the end of a buffer, as the outer loop stores it in carry.\<close>

definition pending :: "string \<Rightarrow> nat \<Rightarrow> string \<Rightarrow> string" where
  "pending buf ls carry = (if ls < length buf then carry @ drop ls buf else carry)"

text \<open>
  The invariant of the reachable states: the root is well-formed, has the empty key and
  is not terminal, and \<open>word_count\<close> is the number of terminal nodes.
\<close>

definition trie_inv :: "plain_char \<Rightarrow> RadixTrie \<Rightarrow> bool" where
  "trie_inv pc t =
     (wf_node pc (root t) \<and> key (root t) = [] \<and> \<not> is_end (root t)
      \<and> word_count t = length (collect_words_from_node (root t) []))"

text \<open>
  Every child vector below a node is strictly ascending in the order \<open>lt\<close>, without
  duplicate keys.
\<close>

fun children_sorted :: "(char \<Rightarrow> char \<Rightarrow> bool) \<Rightarrow> RadixNode \<Rightarrow> bool" where
  "children_sorted lt (RadixNode k e pch cs) =
     (sorted_wrt lt (map fst cs) \<and> distinct (map fst cs)
      \<and> (\<forall>p \<in> set cs. children_sorted lt (snd p)))"

text \<open>Every child key below a node is a byte less than \<open>b\<close>.\<close>

fun keys_below :: "nat \<Rightarrow> RadixNode \<Rightarrow> bool" where
  "keys_below b (RadixNode k e pch cs) =
     (\<forall>p \<in> set cs. of_char (fst p) < b \<and> keys_below b (snd p))"

text \<open>
  Compression.  \<open>compressed n\<close>: no node below \<open>n\<close> is non-terminal with exactly one
  child (\<open>n\<close> itself, the root, is exempt).  \<open>compact\<close> is the stronger property that
  insertion maintains: every node below \<open>n\<close> is terminal or has at least two children.
\<close>

definition node_ok :: "RadixNode \<Rightarrow> bool" where
  "node_ok x = (is_end x \<or> 2 \<le> length (children x))"

fun compact :: "RadixNode \<Rightarrow> bool" where
  "compact (RadixNode k e pch cs) = (\<forall>p \<in> set cs. node_ok (snd p) \<and> compact (snd p))"

fun compressed :: "RadixNode \<Rightarrow> bool" where
  "compressed (RadixNode k e pch cs) =
     (\<forall>p \<in> set cs. \<not> (\<not> is_end (snd p) \<and> length (children (snd p)) = 1) \<and> compressed (snd p))"

text \<open>The states built from the fresh trie by \<open>insert\<close> alone.\<close>

inductive built_by_inserts :: "plain_char \<Rightarrow> RadixTrie \<Rightarrow> bool" for pc :: plain_char where
  built_init: "built_by_inserts pc empty_trie"
| built_insert: "built_by_inserts pc t \<Longrightarrow> built_by_inserts pc (insert_trie pc t w)"

text \<open>
  Modes.  \<open>most_frequent xs m\<close>: no sample occurs more often than \<open>m\<close>.
  \<open>first_most_frequent ks xs\<close>: the first most frequent sample in the enumeration
  \<open>ks\<close>; \<open>lowest_mode\<close>: the lowest most frequent sample.  An \<open>iteration_order\<close>
  enumerates each key of the map exactly once.
\<close>

definition first_most_frequent :: "int list \<Rightarrow> int list \<Rightarrow> int" where
  "first_most_frequent ks xs =
     hd (filter (\<lambda>k. \<forall>x \<in> set xs. count_list xs x \<le> count_list xs k) ks)"

definition lowest_mode :: "int list \<Rightarrow> int" where
  "lowest_mode xs = first_most_frequent (sort (remdups xs)) xs"

definition most_frequent :: "int list \<Rightarrow> int \<Rightarrow> bool" where
  "most_frequent xs m = (m \<in> set xs \<and> (\<forall>x \<in> set xs. count_list xs x \<le> count_list xs m))"

definition iteration_order :: "(int list \<Rightarrow> int list) \<Rightarrow> bool" where
  "iteration_order ord = (\<forall>ks. distinct ks \<longrightarrow> distinct (ord ks) \<and> set (ord ks) = set ks)"

text \<open>
  The depth of a word: the number of edges from the root to the node on which its lookup
  ends (the length of the path \<open>find_node\<close> returns).  \<open>word_depths\<close> and
  \<open>word_lengths\<close> list the depths and the lengths of the words that
  \<open>words_with_prefix("")\<close> enumerates, in that order.
\<close>

definition depth_of :: "plain_char \<Rightarrow> RadixTrie \<Rightarrow> string \<Rightarrow> int" where
  "depth_of pc t w = (case find_node pc t w of None \<Rightarrow> 0 | Some p \<Rightarrow> int (length p))"

definition word_depths :: "plain_char \<Rightarrow> RadixTrie \<Rightarrow> int list" where
  "word_depths pc t = map (depth_of pc t) (words_with_prefix pc t [])"

definition word_lengths :: "plain_char \<Rightarrow> RadixTrie \<Rightarrow> int list" where
  "word_lengths pc t = map (\<lambda>w. int (length w)) (words_with_prefix pc t [])"

text \<open>
  The order of words that compares them byte by byte with \<open>lt\<close>; a proper prefix of a
  word precedes it.  \<open>has_prefix p w\<close>: the word \<open>w\<close> begins with \<open>p\<close>.
\<close>

fun word_less :: "(char \<Rightarrow> char \<Rightarrow> bool) \<Rightarrow> string \<Rightarrow> string \<Rightarrow> bool" where
  "word_less lt [] [] = False"
| "word_less lt [] (y # ys) = True"
| "word_less lt (x # xs) [] = False"
| "word_less lt (x # xs) (y # ys) = (lt x y \<or> (x = y \<and> word_less lt xs ys))"

definition has_prefix :: "string \<Rightarrow> string \<Rightarrow> bool" where
  "has_prefix p w = (take (length p) w = p)"

section \<open>The insertion loop, case by case\<close>

lemma insert_loop_nil: "insert_loop pc n [] = (n, False)"
  by (simp add: insert_loop.simps)

lemma insert_loop_new:
  "rem \<noteq> [] \<Longrightarrow> no_child n (find_child pc n (hd rem)) (hd rem) \<Longrightarrow>
   insert_loop pc n rem = (add_leaf pc n rem, True)"
  by (subst insert_loop.simps) (simp add: add_leaf_def Let_def)

lemma insert_loop_hit:
  assumes "rem \<noteq> []" "i = find_child pc n (hd rem)" "\<not> no_child n i (hd rem)"
    "child = snd (children n ! i)"
    "common_prefix_length (key child) rem = length (key child)"
    "length (key child) = length rem"
  shows "insert_loop pc n rem =
     (if \<not> is_end child then (put_child n i (set_is_end child True), True) else (n, False))"
  using assms by (subst insert_loop.simps) (simp add: Let_def)

lemma insert_loop_down:
  assumes "rem \<noteq> []" "i = find_child pc n (hd rem)" "\<not> no_child n i (hd rem)"
    "child = snd (children n ! i)"
    "common_prefix_length (key child) rem = length (key child)"
    "length (key child) \<noteq> length rem"
  shows "insert_loop pc n rem =
     (put_child n i (fst (insert_loop pc child (drop (length (key child)) rem))),
      snd (insert_loop pc child (drop (length (key child)) rem)))"
  using assms by (subst insert_loop.simps) (simp add: Let_def split: prod.splits)

lemma split_node_slot:
  assumes "\<not> no_child n (find_child pc n c) c" "cl < length (key (snd (children n ! find_child pc n c)))"
  shows "snd (children (split_node pc n c cl (key (snd (children n ! find_child pc n c))))
              ! find_child pc n c)
         = split_inter (snd (children n ! find_child pc n c)) c cl"
proof -
  let ?ck = "key (snd (children n ! find_child pc n c))"
  from assms(2) obtain d ds where d: "drop cl ?ck = d # ds" "d = ?ck ! cl"
    by (metis Cons_nth_drop_Suc)
  from assms(1) have "find_child pc n c < length (children n)" by (simp add: no_child_def)
  with d show ?thesis
    by (simp add: children_split_node split_inter_def)
qed

lemma put_child_split_node:
  assumes "\<not> no_child n (find_child pc n c) c"
  shows "put_child (split_node pc n c cl ck) (find_child pc n c) x = put_child n (find_child pc n c) x"
proof -
  from assms have lt: "find_child pc n c < length (children n)" by (simp add: no_child_def)
  have "key (split_node pc n c cl ck) = key n" "is_end (split_node pc n c cl ck) = is_end n"
    "parent_char (split_node pc n c cl ck) = parent_char n"
    by (simp_all add: split_node_def Let_def set_children_def)
  with lt show ?thesis
    by (simp add: put_child_def set_children_def children_split_node)
qed

lemma insert_loop_split_end:
  assumes "rem \<noteq> []" "i = find_child pc n (hd rem)" "\<not> no_child n i (hd rem)"
    "child = snd (children n ! i)"
    "common_prefix_length (key child) rem \<noteq> length (key child)"
    "common_prefix_length (key child) rem = length rem"
  shows "insert_loop pc n rem =
     (put_child n i (set_is_end (split_inter child (hd rem) (length rem)) True), True)"
proof -
  from assms(5,6) cpl_le1[of "key child" rem] have lt: "length rem < length (key child)" by simp
  have slot: "snd (children (split_node pc n (hd rem) (length rem) (key child)) ! i)
      = split_inter child (hd rem) (length rem)"
    using split_node_slot[of n pc "hd rem" "length rem"] assms(2,3,4) lt by simp
  have ne: "\<not> is_end (split_inter child (hd rem) (length rem))"
    by (simp add: split_inter_def)
  show ?thesis
    using assms slot ne
    by (subst insert_loop.simps)
       (simp add: Let_def find_child_split_node put_child_split_node)
qed

lemma insert_loop_split_more:
  assumes "rem \<noteq> []" "i = find_child pc n (hd rem)" "\<not> no_child n i (hd rem)"
    "child = snd (children n ! i)"
    "cl = common_prefix_length (key child) rem"
    "cl \<noteq> length (key child)" "cl \<noteq> length rem"
  shows "insert_loop pc n rem =
     (put_child n i (add_leaf pc (split_inter child (hd rem) cl) (drop cl rem)), True)"
proof -
  from assms cpl_le1[of "key child" rem] cpl_le2[of "key child" rem]
  have lt: "cl < length (key child)" "cl < length rem" by simp_all
  have slot: "snd (children (split_node pc n (hd rem) cl (key child)) ! i)
      = split_inter child (hd rem) cl"
    using split_node_slot[of n pc "hd rem" cl] assms(2,3,4) lt by simp
  have "\<not> has_child pc (split_inter child (hd rem) cl) (drop cl rem)"
    using no_child_split_inter[of "key child" rem n pc "hd rem"] assms slot by simp
  with lt have nc: "no_child (split_inter child (hd rem) cl)
       (find_child pc (split_inter child (hd rem) cl) (hd (drop cl rem))) (hd (drop cl rem))"
    by (simp add: has_child_def)
  from lt have "drop cl rem \<noteq> []" by simp
  from insert_loop_new[OF this nc]
  have rec: "insert_loop pc (split_inter child (hd rem) cl) (drop cl rem)
     = (add_leaf pc (split_inter child (hd rem) cl) (drop cl rem), True)" .
  show ?thesis
    using assms slot rec
    by (subst insert_loop.simps)
       (simp add: Let_def find_child_split_node put_child_split_node)
qed

lemma insert_loop_induct [case_names nil new hit down split_end split_more]:
  assumes nil: "\<And>n. P n []"
    and new: "\<And>n rem. rem \<noteq> [] \<Longrightarrow> no_child n (find_child pc n (hd rem)) (hd rem) \<Longrightarrow> P n rem"
    and hit: "\<And>n rem i child. rem \<noteq> [] \<Longrightarrow> i = find_child pc n (hd rem) \<Longrightarrow>
        \<not> no_child n i (hd rem) \<Longrightarrow> child = snd (children n ! i) \<Longrightarrow>
        common_prefix_length (key child) rem = length (key child) \<Longrightarrow>
        length (key child) = length rem \<Longrightarrow> P n rem"
    and down: "\<And>n rem i child. rem \<noteq> [] \<Longrightarrow> i = find_child pc n (hd rem) \<Longrightarrow>
        \<not> no_child n i (hd rem) \<Longrightarrow> child = snd (children n ! i) \<Longrightarrow>
        common_prefix_length (key child) rem = length (key child) \<Longrightarrow>
        length (key child) \<noteq> length rem \<Longrightarrow>
        P child (drop (length (key child)) rem) \<Longrightarrow> P n rem"
    and split_end: "\<And>n rem i child. rem \<noteq> [] \<Longrightarrow> i = find_child pc n (hd rem) \<Longrightarrow>
        \<not> no_child n i (hd rem) \<Longrightarrow> child = snd (children n ! i) \<Longrightarrow>
        common_prefix_length (key child) rem \<noteq> length (key child) \<Longrightarrow>
        common_prefix_length (key child) rem = length rem \<Longrightarrow> P n rem"
    and split_more: "\<And>n rem i child cl. rem \<noteq> [] \<Longrightarrow> i = find_child pc n (hd rem) \<Longrightarrow>
        \<not> no_child n i (hd rem) \<Longrightarrow> child = snd (children n ! i) \<Longrightarrow>
        cl = common_prefix_length (key child) rem \<Longrightarrow>
        cl \<noteq> length (key child) \<Longrightarrow> cl \<noteq> length rem \<Longrightarrow> P n rem"
  shows "P n rem"
proof (induction n arbitrary: rem rule: measure_induct_rule[of size])
  case (less n)
  show ?case
  proof (cases "rem = []")
    case True
    then show ?thesis by (simp add: nil)
  next
    case ne: False
    let ?i = "find_child pc n (hd rem)"
    show ?thesis
    proof (cases "no_child n ?i (hd rem)")
      case True
      with ne show ?thesis by (rule new)
    next
      case hc: False
      let ?child = "snd (children n ! ?i)"
      from hc have sz: "size ?child < size n"
        by (simp add: no_child_def size_child_less' del: RadixNode.size)
      show ?thesis
      proof (cases "common_prefix_length (key ?child) rem = length (key ?child)")
        case full: True
        show ?thesis
        proof (cases "length (key ?child) = length rem")
          case True
          from hit[OF ne refl hc refl full True] show ?thesis .
        next
          case False
          from down[OF ne refl hc refl full False less.IH[OF sz]] show ?thesis .
        qed
      next
        case part: False
        show ?thesis
        proof (cases "common_prefix_length (key ?child) rem = length rem")
          case True
          from split_end[OF ne refl hc refl part True] show ?thesis .
        next
          case False
          from split_more[OF ne refl hc refl refl part False] show ?thesis .
        qed
      qed
    qed
  qed
qed

section \<open>Descent and insertion\<close>

lemma cpl_full_iff:
  "(common_prefix_length a b = length a) = (length a \<le> length b \<and> take (length a) b = a)"
  by (induction a b rule: common_prefix_length.induct) auto

lemma cpl_same [simp]: "common_prefix_length a a = length a"
  by (simp add: cpl_full_iff)

lemma cpl_take_self: "common_prefix_length (take k b) b = min k (length b)"
proof -
  have "common_prefix_length (take k b) b = length (take k b)"
    unfolding cpl_full_iff by (simp add: min_def)
  then show ?thesis by (simp add: min.commute)
qed

lemma descend_nil: "descend pc n [] = Some []"
  by (simp add: descend.simps)

lemma descend_no_child:
  "rem \<noteq> [] \<Longrightarrow> no_child n (find_child pc n (hd rem)) (hd rem) \<Longrightarrow> descend pc n rem = None"
  by (subst descend.simps) (simp add: Let_def)

lemma descend_step:
  assumes "rem \<noteq> []" "i = find_child pc n (hd rem)" "\<not> no_child n i (hd rem)"
    "child = snd (children n ! i)"
  shows "descend pc n rem =
     (if common_prefix_length (key child) rem = length (key child)
      then map_option ((#) i) (descend pc child (drop (length (key child)) rem))
      else None)"
  using assms by (subst descend.simps) (auto simp: Let_def cpl_full_iff)

lemma put_child_sel [simp]:
  "key (put_child n i x) = key n" "is_end (put_child n i x) = is_end n"
  "parent_char (put_child n i x) = parent_char n"
  "children (put_child n i x) = (children n)[i := (fst (children n ! i), x)]"
  by (simp_all add: put_child_def set_children_def)

lemma add_leaf_sel [simp]:
  "key (add_leaf pc n rem) = key n" "is_end (add_leaf pc n rem) = is_end n"
  "parent_char (add_leaf pc n rem) = parent_char n"
  "children (add_leaf pc n rem) =
     take (find_child pc n (hd rem)) (children n)
     @ (hd rem, RadixNode rem True (hd rem) []) # drop (find_child pc n (hd rem)) (children n)"
  by (simp_all add: add_leaf_def set_children_def)

lemma find_child_put_child [simp]:
  "find_child pc (put_child n i x) c = find_child pc n c"
  by (simp add: find_child_def map_fst_update)

lemma no_child_put_child [simp]:
  "no_child (put_child n i x) j c = no_child n j c"
  by (cases "i = j"; cases "j < length (children n)") (auto simp: no_child_def)

lemma lower_bound_le: "lower_bound pc ks c \<le> length ks"
  by (simp add: lower_bound_def length_takeWhile_le)

lemma find_child_le: "find_child pc n c \<le> length (children n)"
  using lower_bound_le[of pc "map fst (children n)" c] by (simp add: find_child_def)

lemma lower_bound_insert:
  "lower_bound pc (take (lower_bound pc ks c) ks @ c # drop (lower_bound pc ks c) ks) c
     = lower_bound pc ks c"
  by (induction ks) (auto simp: lower_bound_def char_less_def)

lemma find_child_add_leaf [simp]:
  "find_child pc (add_leaf pc n rem) (hd rem) = find_child pc n (hd rem)"
proof -
  let ?i = "lower_bound pc (map fst (children n)) (hd rem)"
  have "map fst (children (add_leaf pc n rem))
      = take ?i (map fst (children n)) @ hd rem # drop ?i (map fst (children n))"
    by (simp add: find_child_def take_map drop_map)
  then show ?thesis
    using lower_bound_insert[of pc "map fst (children n)" "hd rem"]
    by (simp only: find_child_def)
qed

lemma add_leaf_slot:
  "children (add_leaf pc n rem) ! find_child pc n (hd rem) = (hd rem, RadixNode rem True (hd rem) [])"
  using find_child_le[of pc n "hd rem"] by (simp add: nth_append)

lemma insert_loop_sel:
  "key (fst (insert_loop pc n rem)) = key n \<and> is_end (fst (insert_loop pc n rem)) = is_end n
   \<and> parent_char (fst (insert_loop pc n rem)) = parent_char n"
proof (induction n rem rule: insert_loop_induct[of _ pc])
  case (nil n)
  then show ?case by (simp add: insert_loop_nil)
next
  case (new n rem)
  then show ?case by (simp add: insert_loop_new)
next
  case (hit n rem i child)
  then show ?case by (simp add: insert_loop_hit[OF hit])
next
  case (down n rem i child)
  then show ?case by (simp add: insert_loop_down[OF down(1-6)])
next
  case (split_end n rem i child)
  then show ?case by (simp add: insert_loop_split_end[OF split_end])
next
  case (split_more n rem i child cl)
  then show ?case by (simp add: insert_loop_split_more[OF split_more])
qed

section \<open>Enumeration after insertion\<close>

lemma collect_unfold:
  "collect_words_from_node n q =
     (if is_end n then [q @ key n] else [])
     @ concat (map (\<lambda>p. collect_words_from_node (snd p) (q @ key n)) (children n))"
  by (cases n) (simp add: Let_def)

lemma update_at_Cons: "update_at n (i # p) f = put_child n i (update_at (snd (children n ! i)) p f)"
  by (simp add: put_child_def)

lemma put_child_same: "i < length (children n) \<Longrightarrow> put_child n i (snd (children n ! i)) = n"
  by (cases n) (simp add: put_child_def set_children_def)

lemma put_child_twice:
  "i < length (children n) \<Longrightarrow> put_child (put_child n i x) i y = put_child n i y"
  by (simp add: put_child_def set_children_def)

lemma put_child_slot: "i < length (children n) \<Longrightarrow> snd (children (put_child n i x) ! i) = x"
  by simp

lemma map_update_same:
  "i < length cs \<Longrightarrow> f y = f (cs ! i) \<Longrightarrow> map f (cs[i := y]) = map f cs"
  by (simp add: map_update list_update_same_conv)

lemma collect_put_child:
  assumes "i < length (children n)"
    and "collect_words_from_node x (q @ key n)
         = collect_words_from_node (snd (children n ! i)) (q @ key n)"
  shows "collect_words_from_node (put_child n i x) q = collect_words_from_node n q"
proof -
  have "map (\<lambda>p. collect_words_from_node (snd p) (q @ key n))
          ((children n)[i := (fst (children n ! i), x)])
      = map (\<lambda>p. collect_words_from_node (snd p) (q @ key n)) (children n)"
    using assms by (intro map_update_same) simp_all
  then show ?thesis
    by (simp add: collect_unfold[of "put_child n i x"] collect_unfold[of n])
qed

lemma collect_rekey:
  "k1 @ k2 = key n \<Longrightarrow>
   collect_words_from_node (set_parent_char (set_key n k2) d) (q @ k1) = collect_words_from_node n q"
  by (cases n) (simp add: set_parent_char_def set_key_def Let_def)

lemma collect_split_inter:
  "cl \<le> length (key child) \<Longrightarrow>
   collect_words_from_node (split_inter child c cl) q = collect_words_from_node child q"
  using collect_rekey[of "take cl (key child)" "drop cl (key child)" child "key child ! cl" q]
  by (simp add: split_inter_def Let_def)

lemma collect_unmark_add_leaf:
  "collect_words_from_node
     (update_at (add_leaf pc m r) [find_child pc m (hd r)] clear_end) q
   = collect_words_from_node m q"
proof -
  let ?i = "find_child pc m (hd r)"
  define u where "u = update_at (add_leaf pc m r) [?i] clear_end"
  let ?f = "\<lambda>p. collect_words_from_node (snd p) (q @ key m)"
  have le: "?i \<le> length (children m)" by (rule find_child_le)
  have c: "children u
      = take ?i (children m) @ (hd r, RadixNode r False (hd r) []) # drop ?i (children m)"
    using le unfolding u_def
    by (simp add: set_children_def clear_end_def set_is_end_def nth_append list_update_append)
  have k: "key u = key m" "is_end u = is_end m"
    unfolding u_def by (simp_all add: set_children_def)
  have "map ?f (children u) = map ?f (take ?i (children m)) @ [] # map ?f (drop ?i (children m))"
    unfolding c by (simp add: collect_unfold[of "RadixNode r False (hd r) []"])
  then have "concat (map ?f (children u))
      = concat (map ?f (take ?i (children m)) @ map ?f (drop ?i (children m)))"
    by simp
  also have "\<dots> = concat (map ?f (children m))"
    by (simp flip: map_append)
  finally have "concat (map ?f (children u)) = concat (map ?f (children m))" .
  then have "collect_words_from_node u q = collect_words_from_node m q"
    by (simp add: collect_unfold[of u] collect_unfold[of m] k)
  then show ?thesis by (simp only: u_def)
qed

lemma descend_valid: "descend pc n w = Some p \<Longrightarrow> valid_path n p"
proof (induction pc n w arbitrary: p rule: descend.induct)
  case (1 pc current rem)
  show ?case
  proof (cases "rem = []")
    case True
    with 1(2) show ?thesis by (simp add: descend_nil)
  next
    case ne: False
    let ?i = "find_child pc current (hd rem)"
    let ?child = "snd (children current ! ?i)"
    from 1(2) ne have hc: "\<not> no_child current ?i (hd rem)"
      using descend_no_child[of rem current pc] by auto
    from 1(2) descend_step[OF ne refl hc refl]
    obtain p' where p': "common_prefix_length (key ?child) rem = length (key ?child)"
        "descend pc ?child (drop (length (key ?child)) rem) = Some p'" "p = ?i # p'"
      by (auto split: if_splits)
    from p'(1) have a: "\<not> length rem < length (key ?child)"
       "take (length (key ?child)) rem = key ?child"
      by (simp_all add: cpl_full_iff)
    from 1(1)[OF ne refl refl hc refl refl _ _ p'(2)] a
    have "valid_path ?child p'" by simp
    with hc p'(3) show ?thesis by (simp add: no_child_def)
  qed
qed

lemma update_at_put_child:
  "i < length (children n) \<Longrightarrow>
   update_at (put_child n i x) (i # p) f = put_child n i (update_at x p f)"
  by (simp only: update_at_Cons put_child_twice put_child_slot)

lemma insert_loop_found:
  "rem \<noteq> [] \<Longrightarrow>
   \<exists>p. descend pc (fst (insert_loop pc n rem)) rem = Some p
     \<and> is_end (node_at (fst (insert_loop pc n rem)) p)
     \<and> (snd (insert_loop pc n rem) \<longrightarrow>
          (\<forall>q. collect_words_from_node (update_at (fst (insert_loop pc n rem)) p clear_end) q
               = collect_words_from_node n q))"
proof (induction n rem rule: insert_loop_induct[of _ pc])
  case (nil n)
  then show ?case by simp
next
  case (new n rem)
  let ?i = "find_child pc n (hd rem)"
  have nc: "\<not> no_child (add_leaf pc n rem) ?i (hd rem)"
    using find_child_le[of pc n "hd rem"] by (simp add: no_child_def nth_append)
  have d: "descend pc (add_leaf pc n rem) rem = Some [?i]"
    using new(1) nc
    by (subst descend_step[where i="?i" and child="RadixNode rem True (hd rem) []"])
       (simp_all add: add_leaf_slot descend_nil del: add_leaf_sel(4))
  have e: "is_end (node_at (add_leaf pc n rem) [?i])"
    by (simp add: add_leaf_slot del: add_leaf_sel(4))
  from d e show ?case
    using collect_unmark_add_leaf[of pc n rem]
    by (simp only: insert_loop_new[OF new(1,2)] fst_conv snd_conv) blast
next
  case (hit n rem i child)
  note eq = insert_loop_hit[OF hit(1-6)]
  from hit(3) have lt: "i < length (children n)" by (simp add: no_child_def)
  let ?x = "set_is_end child True"
  show ?case
  proof (cases "is_end child")
    case True
    have "descend pc n rem = Some [i]"
      using hit by (subst descend_step[OF hit(1-4)]) (simp add: descend_nil)
    with True hit show ?thesis
      by (simp add: eq)
  next
    case False
    have d: "descend pc (put_child n i ?x) rem = Some [i]"
      using hit lt
      by (subst descend_step[where i=i and child="?x"])
         (simp_all add: set_is_end_def descend_nil)
    have e: "is_end (node_at (put_child n i ?x) [i])"
      using lt by (simp add: set_is_end_def)
    have "clear_end ?x = child"
      using False by (cases child) (simp add: clear_end_def set_is_end_def)
    then have u: "update_at (put_child n i ?x) [i] clear_end = n"
      using lt hit(4)
      by (simp add: update_at_put_child put_child_same del: put_child_sel(4) update_at.simps(2))
    from False d e u show ?thesis by (simp add: eq)
  qed
next
  case (down n rem i child)
  note eq = insert_loop_down[OF down(1-6)]
  from down(3) have lt: "i < length (children n)" by (simp add: no_child_def)
  let ?r = "drop (length (key child)) rem"
  let ?R = "insert_loop pc child ?r"
  let ?x = "fst ?R"
  from down cpl_le2[of "key child" rem] have "?r \<noteq> []" by simp
  from down(7)[OF this]
  obtain p where p: "descend pc ?x ?r = Some p" "is_end (node_at ?x p)"
     "snd ?R \<longrightarrow> (\<forall>q. collect_words_from_node (update_at ?x p clear_end) q
               = collect_words_from_node child q)"
    by blast
  have d: "descend pc (put_child n i ?x) rem = Some (i # p)"
    using down(1-6) lt p(1) insert_loop_sel[of pc child ?r]
    by (subst descend_step[where i=i and child="?x"]) simp_all
  have e: "is_end (node_at (put_child n i ?x) (i # p))"
    using lt p(2) by simp
  have c: "collect_words_from_node (update_at (put_child n i ?x) (i # p) clear_end) q
               = collect_words_from_node n q" if "snd ?R" for q
  proof -
    have "update_at (put_child n i ?x) (i # p) clear_end = put_child n i (update_at ?x p clear_end)"
      using lt by (rule update_at_put_child)
    moreover have "collect_words_from_node (put_child n i (update_at ?x p clear_end)) q
        = collect_words_from_node n q"
      using lt p(3) that down(4) by (intro collect_put_child) simp_all
    ultimately show ?thesis by simp
  qed
  from d e c show ?case
    by (simp only: eq fst_conv snd_conv) blast
next
  case (split_end n rem i child)
  note eq = insert_loop_split_end[OF split_end(1-6)]
  from split_end(3) have lt: "i < length (children n)" by (simp add: no_child_def)
  from split_end(5,6) cpl_le1[of "key child" rem] have cl: "length rem \<le> length (key child)"
    by simp
  let ?m = "split_inter child (hd rem) (length rem)"
  let ?x = "set_is_end ?m True"
  have k: "key ?x = rem"
    using split_end(6) cpl_take[of "key child" rem]
    by (simp add: set_is_end_def split_inter_def)
  have d: "descend pc (put_child n i ?x) rem = Some [i]"
    using split_end(1-6) lt k
    by (subst descend_step[where i=i and child="?x"]) (simp_all add: descend_nil)
  have e: "is_end (node_at (put_child n i ?x) [i])"
    using lt by (simp add: set_is_end_def)
  have "clear_end ?x = ?m"
    by (simp add: clear_end_def set_is_end_def split_inter_def)
  then have u: "update_at (put_child n i ?x) [i] clear_end = put_child n i ?m"
    using lt by (simp add: update_at_put_child del: put_child_sel(4) update_at.simps(2))
  have c: "collect_words_from_node (put_child n i ?m) q = collect_words_from_node n q" for q
    using lt split_end(4) cl by (intro collect_put_child) (simp_all add: collect_split_inter)
  from d e u c show ?case
    by (simp only: eq fst_conv snd_conv) simp
next
  case (split_more n rem i child cl)
  note eq = insert_loop_split_more[OF split_more(1-7)]
  from split_more(3) have lt: "i < length (children n)" by (simp add: no_child_def)
  from split_more cpl_le1[of "key child" rem] cpl_le2[of "key child" rem]
  have cl: "cl < length (key child)" "cl < length rem" by simp_all
  let ?r = "drop cl rem"
  let ?m = "split_inter child (hd rem) cl"
  let ?x = "add_leaf pc ?m ?r"
  let ?j = "find_child pc ?m (hd ?r)"
  from cl have rne: "?r \<noteq> []" by simp
  have k: "key ?x = take cl rem"
    using split_more(5) cpl_take[of "key child" rem] by (simp add: split_inter_def)
  have nc: "\<not> no_child ?x ?j (hd ?r)"
    using find_child_le[of pc ?m "hd ?r"] by (simp add: no_child_def nth_append)
  have d1: "descend pc ?x ?r = Some [?j]"
    using rne nc
    by (subst descend_step[where i="?j" and child="RadixNode ?r True (hd ?r) []"])
       (simp_all add: add_leaf_slot descend_nil del: add_leaf_sel(4))
  have d: "descend pc (put_child n i ?x) rem = Some [i, ?j]"
    using split_more(1-4) lt k cl d1
    by (subst descend_step[where i=i and child="?x"])
       (simp_all add: cpl_take_self del: add_leaf_sel(4))
  have e: "is_end (node_at (put_child n i ?x) [i, ?j])"
    using lt by (simp add: add_leaf_slot del: add_leaf_sel(4))
  have u: "update_at (put_child n i ?x) [i, ?j] clear_end
      = put_child n i (update_at ?x [?j] clear_end)"
    using lt by (rule update_at_put_child)
  have c: "collect_words_from_node (put_child n i (update_at ?x [?j] clear_end)) q
     = collect_words_from_node n q" for q
    using lt split_more(4) cl collect_unmark_add_leaf[of pc ?m ?r]
    by (intro collect_put_child) (simp_all add: collect_split_inter del: update_at.simps)
  from d e u c show ?case
    by (simp only: eq fst_conv snd_conv) simp
qed

lemma insert_loop_stored:
  "rem \<noteq> [] \<Longrightarrow>
   snd (insert_loop pc n rem) = (\<not> stored pc n rem)
   \<and> (stored pc n rem \<longrightarrow> fst (insert_loop pc n rem) = n)"
proof (induction n rem rule: insert_loop_induct[of _ pc])
  case (nil n)
  then show ?case by simp
next
  case (new n rem)
  then show ?case
    by (simp add: insert_loop_new stored_def descend_no_child)
next
  case (hit n rem i child)
  have "descend pc n rem = Some [i]"
    using hit by (subst descend_step[OF hit(1-4)]) (simp add: descend_nil)
  with hit(4) show ?case
    by (simp add: insert_loop_hit[OF hit(1-6)] stored_def)
next
  case (down n rem i child)
  from down(3) have lt: "i < length (children n)" by (simp add: no_child_def)
  let ?r = "drop (length (key child)) rem"
  from down cpl_le2[of "key child" rem] have "?r \<noteq> []" by simp
  from down(7)[OF this] have ih: "snd (insert_loop pc child ?r) = (\<not> stored pc child ?r)"
    "stored pc child ?r \<longrightarrow> fst (insert_loop pc child ?r) = child" by simp_all
  have "stored pc n rem = stored pc child ?r"
    using down(4,5) by (simp add: stored_def descend_step[OF down(1-4)] split: option.splits)
  with ih lt down(4) show ?case
    by (auto simp: insert_loop_down[OF down(1-6)] put_child_same simp del: put_child_sel(4))
next
  case (split_end n rem i child)
  then show ?case
    by (simp add: insert_loop_split_end[OF split_end(1-6)] stored_def descend_step[OF split_end(1-4)])
next
  case (split_more n rem i child cl)
  then show ?case
    by (simp add: insert_loop_split_more[OF split_more(1-7)] stored_def descend_step[OF split_more(1-4)])
qed

section \<open>Matcher and glob semantics\<close>

lemma glob_nil: "spec_glob p [] = (dropWhile (\<lambda>c. c = CHR ''*'') p = [])"
  by (induction p) auto

lemma glob_star_only: "spec_glob [CHR ''*''] w"
  by (auto simp: list_ex_iff intro!: bexI[of _ "length w"])

lemma matches_pattern_glob: "matches_pattern w p = spec_glob p w"
proof (induction w p rule: matches_pattern.induct)
  case (1 pattern)
  then show ?case by (simp add: glob_nil)
next
  case (2 w ws)
  then show ?case by simp
next
  case (3 w ws p ps)
  show ?case
  proof (cases "p = CHR ''?''")
    case True
    with 3 show ?thesis by simp
  next
    case nq: False
    show ?thesis
    proof (cases "p = CHR ''*''")
      case True
      show ?thesis
      proof (cases "ps = []")
        case True
        with \<open>p = CHR ''*''\<close> show ?thesis using glob_star_only[of "w # ws"] by simp
      next
        case False
        with nq True 3(2) show ?thesis
          by (simp add: list_ex_iff del: upt_Suc)
      qed
    next
      case False
      with nq 3(3) show ?thesis by auto
    qed
  qed
qed

lemma pattern_match_recursive_filter:
  "pattern_match_recursive n cw pat
     = filter (\<lambda>w. matches_pattern w pat) (collect_words_from_node n cw)"
proof (induction n cw pat rule: pattern_match_recursive.induct)
  case (1 k e pch cs current_word pattern)
  have "concat (map (\<lambda>p. pattern_match_recursive (snd p) (current_word @ k) pattern) cs)
      = concat (map (\<lambda>p. filter (\<lambda>w. matches_pattern w pattern)
                 (collect_words_from_node (snd p) (current_word @ k))) cs)"
    using 1 by (intro arg_cong[where f=concat] map_cong) auto
  then show ?case
    by (simp add: filter_concat comp_def Let_def)
qed

section \<open>Failed and empty-word lookups\<close>

text \<open>
  Claim C10.  On every trie state (reachable or not), \<open>search\<close> on the empty string
  returns false and \<open>remove\<close> on the empty string returns false.
\<close>

theorem empty_word_search_remove_false:
  "search pc t [] = False \<and> fst (remove_trie pc t []) = False"
  by (simp add: search_def find_node_def remove_trie_def)

theorem empty_word_search_remove_false_witness:
  "search SignedChar (insert_trie SignedChar empty_trie ''a'') [] = False
   \<and> fst (remove_trie SignedChar (insert_trie SignedChar empty_trie ''a'') []) = False"
  using empty_word_search_remove_false
          [of SignedChar "insert_trie SignedChar empty_trie ''a''"]
  by simp

text \<open>
  Claim C9.  If \<open>remove(w)\<close> returns false, the trie state it leaves is the state it was
  called on: the root (hence every node) and \<open>word_count\<close> are unchanged.
\<close>

theorem remove_false_unchanged:
  "fst (remove_trie pc t w) = False \<Longrightarrow> snd (remove_trie pc t w) = t"
  by (auto simp: remove_trie_def split: option.splits if_splits)

theorem remove_false_unchanged_witness:
  "fst (remove_trie SignedChar (insert_trie SignedChar empty_trie ''ab'') ''a'') = False
   \<and> snd (remove_trie SignedChar (insert_trie SignedChar empty_trie ''ab'') ''a'')
       = insert_trie SignedChar empty_trie ''ab''"
proof -
  have h: "fst (remove_trie SignedChar (insert_trie SignedChar empty_trie ''ab'') ''a'') = False"
    by code_simp
  from h remove_false_unchanged[OF h] show ?thesis by simp
qed

section \<open>Removal never prunes\<close>

text \<open>
  \<open>cleanup_orphaned_nodes\<close> starts its upward loop only at a terminal node, and the loop
  stops at once at a terminal node: it never changes the trie.  After \<open>remove\<close> has cleared
  the flag of the node it found, the cleanup finds that node not terminal and returns.
\<close>

lemma cleanup_up_terminal: "is_end (node_at r path) \<Longrightarrow> cleanup_up pc r path = r"
  by (subst cleanup_up.simps) (simp add: Let_def)

lemma cleanup_orphaned_nodes_id: "cleanup_orphaned_nodes pc t w = t"
  by (simp add: cleanup_orphaned_nodes_def cleanup_up_terminal split: option.splits)

lemma clear_end_eq: "(\<lambda>n. set_is_end n False) = clear_end"
  by (rule ext) (simp add: clear_end_def)

lemma search_stored: "search pc t w = (w \<noteq> [] \<and> stored pc (root t) w)"
  by (simp add: search_def find_node_def stored_def split: option.splits)

lemma insert_trie_alt:
  "w \<noteq> [] \<Longrightarrow> insert_trie pc t w =
     \<lparr>root = fst (insert_loop pc (root t) w),
      word_count = (if snd (insert_loop pc (root t) w) then Suc (word_count t) else word_count t)\<rparr>"
  by (simp add: insert_trie_def case_prod_beta)

lemma insert_trie_twice: "insert_trie pc (insert_trie pc t w) w = insert_trie pc t w"
proof (cases "w = []")
  case True
  then show ?thesis by (simp add: insert_trie_def)
next
  case False
  let ?R = "insert_loop pc (root t) w"
  from insert_loop_found[OF False, of pc "root t"]
  have "stored pc (fst ?R) w" by (auto simp: stored_def)
  with insert_loop_stored[OF False, of pc "fst ?R"]
  have "insert_loop pc (fst ?R) w = (fst ?R, False)"
    by (simp add: prod_eq_iff)
  with False show ?thesis
    by (simp add: insert_trie_alt)
qed

section \<open>Inserting twice, inserting then removing\<close>

text \<open>
  Claim C6.  Inserting a word a second time changes nothing: the state after
  \<open>insert(w); insert(w)\<close> is the state after \<open>insert(w)\<close>, so \<open>size()\<close>, \<open>search\<close> on
  every word and \<open>words_with_prefix\<close> on every prefix agree.  This holds from every trie
  state and for every word, the reachable states and non-empty words among them.
\<close>

theorem insert_idempotent:
  "insert_trie pc (insert_trie pc t w) w = insert_trie pc t w
   \<and> size_trie (insert_trie pc (insert_trie pc t w) w) = size_trie (insert_trie pc t w)
   \<and> (\<forall>x. search pc (insert_trie pc (insert_trie pc t w) w) x = search pc (insert_trie pc t w) x)
   \<and> (\<forall>p. words_with_prefix pc (insert_trie pc (insert_trie pc t w) w) p
          = words_with_prefix pc (insert_trie pc t w) p)"
  by (simp add: insert_trie_twice)

theorem insert_idempotent_witness:
  "size_trie (insert_trie SignedChar (insert_trie SignedChar
       (insert_trie SignedChar empty_trie ''help'') ''hello'') ''hello'') = 2
   \<and> size_trie (insert_trie SignedChar (insert_trie SignedChar empty_trie ''help'') ''hello'') = 2"
proof -
  have "size_trie (insert_trie SignedChar (insert_trie SignedChar empty_trie ''help'') ''hello'') = 2"
    by code_simp
  with insert_idempotent[of SignedChar "insert_trie SignedChar empty_trie ''help''" "''hello''"]
  show ?thesis by simp
qed

lemma remove_after_insert:
  assumes "w \<noteq> []" "\<not> search pc t w"
  shows "\<exists>p. remove_trie pc (insert_trie pc t w) w
           = (True, \<lparr>root = update_at (fst (insert_loop pc (root t) w)) p clear_end,
                     word_count = word_count t\<rparr>)
        \<and> (\<forall>q. collect_words_from_node (update_at (fst (insert_loop pc (root t) w)) p clear_end) q
               = collect_words_from_node (root t) q)"
proof -
  let ?R = "insert_loop pc (root t) w"
  from assms have ns: "\<not> stored pc (root t) w" by (simp add: search_stored)
  with insert_loop_stored[OF assms(1), of pc "root t"] have g: "snd ?R" by simp
  from insert_loop_found[OF assms(1), of pc "root t"] g
  obtain p where p: "descend pc (fst ?R) w = Some p" "is_end (node_at (fst ?R) p)"
     "\<forall>q. collect_words_from_node (update_at (fst ?R) p clear_end) q
               = collect_words_from_node (root t) q"
    by blast
  have "insert_trie pc t w = \<lparr>root = fst ?R, word_count = Suc (word_count t)\<rparr>"
    using assms(1) g by (simp add: insert_trie_alt)
  then have "remove_trie pc (insert_trie pc t w) w
           = (True, \<lparr>root = update_at (fst ?R) p clear_end, word_count = word_count t\<rparr>)"
    using assms(1) p(1,2)
    by (simp add: remove_trie_def find_node_def cleanup_orphaned_nodes_id clear_end_eq)
  with p(3) show ?thesis by blast
qed

text \<open>
  Claim C5, as stated, fails for a word that is already stored: inserting it changes
  nothing and removing it takes it out of the trie.
\<close>

theorem insert_remove_stored_word_counterexample:
  "reachable SignedChar (insert_trie SignedChar empty_trie ''a'') \<and> ''a'' \<noteq> []
   \<and> \<not> (size_trie (snd (remove_trie SignedChar
              (insert_trie SignedChar (insert_trie SignedChar empty_trie ''a'') ''a'') ''a''))
           = size_trie (insert_trie SignedChar empty_trie ''a'')
         \<and> words_with_prefix SignedChar (snd (remove_trie SignedChar
              (insert_trie SignedChar (insert_trie SignedChar empty_trie ''a'') ''a'') ''a'')) []
           = words_with_prefix SignedChar (insert_trie SignedChar empty_trie ''a'') [])"
proof -
  have "reachable SignedChar (insert_trie SignedChar empty_trie ''a'')"
    by (intro reachable_insert reachable_init)
  moreover have "size_trie (snd (remove_trie SignedChar
         (insert_trie SignedChar (insert_trie SignedChar empty_trie ''a'') ''a'') ''a'')) = 0"
    by code_simp
  moreover have "size_trie (insert_trie SignedChar empty_trie ''a'') = 1"
    by code_simp
  ultimately show ?thesis by simp
qed

text \<open>
  Claim C5, amended.  For every trie state and every non-empty word \<open>w\<close> that is not
  stored (\<open>search(w)\<close> is false), \<open>insert(w)\<close> followed by \<open>remove(w)\<close> returns true and
  leaves a trie with the same \<open>size()\<close> and the same \<open>words_with_prefix("")\<close> enumeration
  as before the two operations.
\<close>

theorem insert_remove_inverse:
  assumes "w \<noteq> []" "\<not> search pc t w"
  shows "fst (remove_trie pc (insert_trie pc t w) w) = True
    \<and> size_trie (snd (remove_trie pc (insert_trie pc t w) w)) = size_trie t
    \<and> words_with_prefix pc (snd (remove_trie pc (insert_trie pc t w) w)) []
        = words_with_prefix pc t []"
  using remove_after_insert[OF assms]
  by (auto simp: size_trie_def words_with_prefix_def)

theorem insert_remove_inverse_witness:
  "''hello'' \<noteq> [] \<and> \<not> search SignedChar (insert_trie SignedChar empty_trie ''help'') ''hello''
   \<and> size_trie (snd (remove_trie SignedChar
        (insert_trie SignedChar (insert_trie SignedChar empty_trie ''help'') ''hello'') ''hello'')) = 1
   \<and> words_with_prefix SignedChar (snd (remove_trie SignedChar
        (insert_trie SignedChar (insert_trie SignedChar empty_trie ''help'') ''hello'') ''hello'')) []
      = [''help'']"
proof -
  have a: "''hello'' \<noteq> []" by simp
  have b: "\<not> search SignedChar (insert_trie SignedChar empty_trie ''help'') ''hello''"
    by code_simp
  have c: "size_trie (insert_trie SignedChar empty_trie ''help'') = 1"
    "words_with_prefix SignedChar (insert_trie SignedChar empty_trie ''help'') [] = [''help'']"
    by code_simp+
  from insert_remove_inverse[OF a b] a b c show ?thesis by simp
qed

section \<open>Insertion keeps nodes well-formed\<close>

lemma wf_unfold:
  "wf_node pc n =
     (sorted_wrt (char_less pc) (map fst (children n)) \<and>
      (\<forall>p \<in> set (children n). key (snd p) \<noteq> [] \<and> hd (key (snd p)) = fst p
           \<and> parent_char (snd p) = fst p \<and> wf_node pc (snd p)))"
  by (cases n) simp

lemma of_char_int_bounds: "0 \<le> (of_char c :: int) \<and> (of_char c :: int) < 256"
proof -
  have "(of_char c :: int) = int (of_char c)" by (simp add: of_nat_of_char)
  moreover have "(of_char c :: nat) < 256" by simp
  ultimately show ?thesis by simp
qed

lemma char_val_inj: "char_val pc a = char_val pc b \<Longrightarrow> a = b"
  using of_char_int_bounds[of a] of_char_int_bounds[of b]
  by (cases pc) (auto split: if_splits)

lemma char_less_trans: "char_less pc a b \<Longrightarrow> char_less pc b c \<Longrightarrow> char_less pc a c"
  by (simp add: char_less_def)

lemma char_less_total: "\<not> char_less pc a b \<Longrightarrow> a \<noteq> b \<Longrightarrow> char_less pc b a"
  using char_val_inj[of pc a b] by (fastforce simp: char_less_def)

lemma char_less_irrefl: "\<not> char_less pc a a"
  by (simp add: char_less_def)

lemma sorted_lower_bound_insert:
  assumes "sorted_wrt (char_less pc) ks"
    and "length ks \<le> lower_bound pc ks c \<or> ks ! lower_bound pc ks c \<noteq> c"
  shows "sorted_wrt (char_less pc) (take (lower_bound pc ks c) ks @ c # drop (lower_bound pc ks c) ks)"
  using assms
proof (induction ks)
  case Nil
  then show ?case by simp
next
  case (Cons k ks)
  show ?case
  proof (cases "char_less pc k c")
    case True
    then have lb: "lower_bound pc (k # ks) c = Suc (lower_bound pc ks c)"
      by (simp add: lower_bound_def)
    from Cons.prems lb
    have "sorted_wrt (char_less pc) (take (lower_bound pc ks c) ks @ c # drop (lower_bound pc ks c) ks)"
      by (intro Cons.IH) auto
    moreover have "\<forall>x \<in> set (take (lower_bound pc ks c) ks @ c # drop (lower_bound pc ks c) ks).
        char_less pc k x"
      using Cons.prems(1) True by (auto dest: in_set_takeD in_set_dropD)
    ultimately show ?thesis by (simp add: lb)
  next
    case False
    then have lb: "lower_bound pc (k # ks) c = 0"
      by (simp add: lower_bound_def)
    with Cons.prems(2) have "k \<noteq> c" by auto
    with False have kc: "char_less pc c k" by (rule char_less_total)
    with Cons.prems(1) have "\<forall>x \<in> set ks. char_less pc c x"
      by (auto intro: char_less_trans)
    with kc Cons.prems(1) show ?thesis by (simp add: lb)
  qed
qed

lemma wf_put_child:
  assumes "wf_node pc n" "i < length (children n)"
    "key x \<noteq> []" "hd (key x) = fst (children n ! i)" "parent_char x = fst (children n ! i)"
    "wf_node pc x"
  shows "wf_node pc (put_child n i x)"
proof -
  have "set ((children n)[i := (fst (children n ! i), x)])
      \<subseteq> insert (fst (children n ! i), x) (set (children n))"
    by (rule set_update_subset_insert)
  with assms show ?thesis
    unfolding wf_unfold[of pc "put_child n i x"] wf_unfold[of pc n]
    by (auto simp: map_fst_update)
qed

lemma wf_add_leaf:
  assumes "wf_node pc m" "r \<noteq> []" "no_child m (find_child pc m (hd r)) (hd r)"
  shows "wf_node pc (add_leaf pc m r)"
proof -
  let ?i = "find_child pc m (hd r)"
  let ?ks = "map fst (children m)"
  have i: "?i = lower_bound pc ?ks (hd r)" by (simp add: find_child_def)
  from assms(3) have "length ?ks \<le> lower_bound pc ?ks (hd r) \<or> ?ks ! lower_bound pc ?ks (hd r) \<noteq> hd r"
    by (auto simp: no_child_def find_child_def)
  with assms(1) have "sorted_wrt (char_less pc)
      (take (lower_bound pc ?ks (hd r)) ?ks @ hd r # drop (lower_bound pc ?ks (hd r)) ?ks)"
    by (intro sorted_lower_bound_insert) (simp_all add: wf_unfold[of pc m])
  then have s: "sorted_wrt (char_less pc) (map fst (children (add_leaf pc m r)))"
    by (simp add: i take_map drop_map)
  have "\<forall>p \<in> set (children (add_leaf pc m r)). key (snd p) \<noteq> [] \<and> hd (key (snd p)) = fst p
           \<and> parent_char (snd p) = fst p \<and> wf_node pc (snd p)"
    using assms(1,2) unfolding wf_unfold[of pc m]
    by (auto dest: in_set_takeD in_set_dropD)
  with s show ?thesis
    unfolding wf_unfold[of pc "add_leaf pc m r"] by blast
qed

lemma cpl_pos: "a \<noteq> [] \<Longrightarrow> b \<noteq> [] \<Longrightarrow> hd a = hd b \<Longrightarrow> 0 < common_prefix_length a b"
  by (cases a; cases b) auto

lemma wf_split_inter:
  assumes "wf_node pc child" "0 < cl" "cl < length (key child)" "hd (key child) = c"
  shows "wf_node pc (split_inter child c cl) \<and> key (split_inter child c cl) \<noteq> []
     \<and> hd (key (split_inter child c cl)) = c \<and> parent_char (split_inter child c cl) = c"
proof -
  have "wf_node pc (set_parent_char (set_key child (drop cl (key child))) d)" for d
    using assms(1) by (cases child) (simp add: set_parent_char_def set_key_def)
  moreover have "hd (drop cl (key child)) = key child ! cl"
    using assms(3) by (simp add: hd_drop_conv_nth)
  moreover have "hd (take cl (key child)) = c"
    using assms(2,3,4) by (cases "key child"; cases cl) auto
  ultimately show ?thesis
    using assms(2,3)
    by (auto simp: split_inter_def set_parent_char_def set_key_def)
qed

lemma split_inter_no_child:
  assumes "cl = common_prefix_length (key child) rem" "cl < length (key child)" "cl < length rem"
  shows "no_child (split_inter child c cl) (find_child pc (split_inter child c cl) (hd (drop cl rem)))
           (hd (drop cl rem))"
proof -
  from assms have "key child ! cl \<noteq> rem ! cl"
    using cpl_mismatch[of "key child" rem] by simp
  with assms(3) show ?thesis
    by (auto simp: no_child_def split_inter_def find_child_def lower_bound_def hd_drop_conv_nth)
qed

lemma wf_insert_loop: "wf_node pc n \<Longrightarrow> wf_node pc (fst (insert_loop pc n rem))"
proof (induction n rem rule: insert_loop_induct[of _ pc])
  case (nil n)
  then show ?case by (simp add: insert_loop_nil)
next
  case (new n rem)
  then show ?case by (simp add: insert_loop_new wf_add_leaf del: add_leaf_sel)
next
  case (hit n rem i child)
  from hit(3) have lt: "i < length (children n)" by (simp add: no_child_def)
  with hit(7) have ch: "key child \<noteq> []" "hd (key child) = fst (children n ! i)"
     "parent_char child = fst (children n ! i)" "wf_node pc child"
    unfolding wf_unfold[of pc n] hit(4) by (auto dest: nth_mem)
  have "wf_node pc (set_is_end child True)"
    using ch(4) by (cases child) (simp add: set_is_end_def)
  with hit(7) lt ch have "wf_node pc (put_child n i (set_is_end child True))"
    by (intro wf_put_child) (simp_all add: set_is_end_def)
  with hit(7) show ?case
    by (simp add: insert_loop_hit[OF hit(1-6)] del: put_child_sel)
next
  case (down n rem i child)
  from down(3) have lt: "i < length (children n)" by (simp add: no_child_def)
  with down(8) have ch: "key child \<noteq> []" "hd (key child) = fst (children n ! i)"
     "parent_char child = fst (children n ! i)" "wf_node pc child"
    unfolding wf_unfold[of pc n] down(4) by (auto dest: nth_mem)
  let ?x = "fst (insert_loop pc child (drop (length (key child)) rem))"
  from down(7)[OF ch(4)] have "wf_node pc ?x" .
  with down(8) lt ch insert_loop_sel[of pc child "drop (length (key child)) rem"]
  have "wf_node pc (put_child n i ?x)"
    by (intro wf_put_child) simp_all
  then show ?case
    by (simp add: insert_loop_down[OF down(1-6)] del: put_child_sel)
next
  case (split_end n rem i child)
  from split_end(3) have lt: "i < length (children n)" and c: "fst (children n ! i) = hd rem"
    by (simp_all add: no_child_def)
  with split_end(7) have ch: "key child \<noteq> []" "hd (key child) = fst (children n ! i)"
     "parent_char child = fst (children n ! i)" "wf_node pc child"
    unfolding wf_unfold[of pc n] split_end(4) by (auto dest: nth_mem)
  from split_end(5,6) cpl_le1[of "key child" rem] have cl: "length rem < length (key child)"
    by simp
  let ?m = "split_inter child (hd rem) (length rem)"
  from wf_split_inter[OF ch(4) _ cl, of "hd rem"] split_end(1) ch(2) c
  have m: "wf_node pc ?m" "key ?m \<noteq> []" "hd (key ?m) = hd rem" "parent_char ?m = hd rem"
    by simp_all
  have "wf_node pc (set_is_end ?m True)"
    using m(1) by (cases ?m) (simp add: set_is_end_def)
  with split_end(7) lt m c have "wf_node pc (put_child n i (set_is_end ?m True))"
    by (intro wf_put_child) (simp_all add: set_is_end_def)
  then show ?case
    by (simp add: insert_loop_split_end[OF split_end(1-6)] del: put_child_sel)
next
  case (split_more n rem i child cl)
  from split_more(3) have lt: "i < length (children n)" and c: "fst (children n ! i) = hd rem"
    by (simp_all add: no_child_def)
  with split_more(8) have ch: "key child \<noteq> []" "hd (key child) = fst (children n ! i)"
     "parent_char child = fst (children n ! i)" "wf_node pc child"
    unfolding wf_unfold[of pc n] split_more(4) by (auto dest: nth_mem)
  from split_more cpl_le1[of "key child" rem] cpl_le2[of "key child" rem]
  have cl: "cl < length (key child)" "cl < length rem" by simp_all
  from cpl_pos[OF ch(1) split_more(1)] ch(2) c split_more(5) have pos: "0 < cl" by simp
  let ?m = "split_inter child (hd rem) cl"
  let ?r = "drop cl rem"
  from wf_split_inter[OF ch(4) pos cl(1), of "hd rem"] ch(2) c
  have m: "wf_node pc ?m" "key ?m \<noteq> []" "hd (key ?m) = hd rem" "parent_char ?m = hd rem"
    by simp_all
  from cl have "?r \<noteq> []" by simp
  with m(1) split_inter_no_child[OF split_more(5) cl, of "hd rem" pc]
  have "wf_node pc (add_leaf pc ?m ?r)" by (intro wf_add_leaf)
  with split_more(8) lt m c have "wf_node pc (put_child n i (add_leaf pc ?m ?r))"
    by (intro wf_put_child) simp_all
  then show ?case
    by (simp add: insert_loop_split_more[OF split_more(1-7)] del: put_child_sel)
qed

section \<open>The streaming parser\<close>

lemma dropWhile_snoc:
  "dropWhile P (xs @ [a]) = (if \<forall>x \<in> set xs. P x then dropWhile P [a] else dropWhile P xs @ [a])"
  by (induction xs) auto

lemma dropWhile_rev_dropWhile:
  "dropWhile P (rev (dropWhile P (rev s))) = rev (dropWhile P (rev (dropWhile P s)))"
proof (induction s)
  case Nil
  then show ?case by simp
next
  case (Cons a s)
  show ?case
  proof (cases "\<forall>x \<in> set s. P x")
    case True
    then have e: "dropWhile P (rev s @ [a]) = dropWhile P [a]"
      by (simp add: dropWhile_snoc del: dropWhile_append2)
    from True have d: "dropWhile P s = []" by simp
    show ?thesis
      by (cases "P a") (simp_all add: e d del: dropWhile_append2)
  next
    case False
    then have e: "dropWhile P (rev s @ [a]) = dropWhile P (rev s) @ [a]"
      by (simp add: dropWhile_snoc del: dropWhile_append2)
    show ?thesis
      using Cons by (cases "P a") (simp_all add: e del: dropWhile_append2)
  qed
qed

lemma trim_spec_trim: "trim s = spec_trim s"
  by (simp add: trim_def spec_trim_def dropWhile_rev_dropWhile)

lemma insert_trimmed_emit: "insert_trimmed pc s st = emit pc (record_of s) st"
  by (cases st) (simp add: insert_trimmed_def emit_def record_of_def Let_def)

lemma emit_append: "emit pc (ws @ vs) st = emit pc vs (emit pc ws st)"
  by (simp add: emit_def)

lemma emit_Nil: "emit pc [] st = st"
  by (simp add: emit_def)

lemma spec_records_delims:
  "\<forall>c \<in> set ds. is_delim c \<Longrightarrow> spec_records (ds @ x) = spec_records x"
  by (induction ds) simp_all

lemma spec_records_record:
  assumes "r \<noteq> []" "\<forall>c \<in> set r. \<not> is_delim c" "is_delim d"
  shows "spec_records (r @ d # x) = r # spec_records x"
proof -
  from assms(1) obtain c r' where r: "r = c # r'" by (cases r) auto
  with assms(2) have nd: "\<not> is_delim c" "\<forall>c \<in> set r'. \<not> is_delim c" by simp_all
  have "takeWhile (\<lambda>x. \<not> is_delim x) (r' @ d # x) = r'"
    using nd(2) assms(3) by (simp add: takeWhile_append2)
  moreover have "dropWhile (\<lambda>x. \<not> is_delim x) (r' @ d # x) = d # x"
    using nd(2) assms(3) by (simp add: dropWhile_append2)
  ultimately show ?thesis
    using nd(1) assms(3) by (simp add: r)
qed

lemma spec_records_last:
  assumes "\<forall>c \<in> set r. \<not> is_delim c"
  shows "spec_records r = (if r = [] then [] else [r])"
proof (cases r)
  case Nil
  then show ?thesis by simp
next
  case (Cons c r')
  with assms have nd: "\<not> is_delim c" and all: "\<forall>x \<in> set r'. \<not> is_delim x" by simp_all
  from all have t: "takeWhile (\<lambda>x. \<not> is_delim x) r' = r'" by simp
  from all have d: "dropWhile (\<lambda>x. \<not> is_delim x) r' = []" by simp
  show ?thesis by (simp add: Cons nd t d)
qed

lemma trim_Nil: "trim [] = []"
  by (simp add: trim_def)

lemma spec_lines_record:
  assumes "\<forall>c \<in> set r. \<not> is_delim c" "is_delim d"
  shows "spec_lines (r @ d # x) = record_of r @ spec_lines x"
proof (cases "r = []")
  case True
  with assms(2) show ?thesis
    by (simp add: spec_lines_def record_of_def trim_Nil)
next
  case False
  from spec_records_record[OF False assms] show ?thesis
    by (simp add: spec_lines_def record_of_def trim_spec_trim)
qed

lemma spec_lines_delims:
  "\<forall>c \<in> set ds. is_delim c \<Longrightarrow> spec_lines (ds @ x) = spec_lines x"
  by (simp add: spec_lines_def spec_records_delims)

lemma spec_lines_last:
  "\<forall>c \<in> set r. \<not> is_delim c \<Longrightarrow> spec_lines r = record_of r"
  by (simp add: spec_lines_def spec_records_last record_of_def trim_spec_trim spec_trim_def)

lemma scan_buffer_step_delim:
  assumes "i < length buf" "is_delim (buf ! i)"
  shows "scan_buffer pc buf i ls (t, n, carry)
     = scan_buffer pc buf (Suc (skip_delims buf i)) (Suc (skip_delims buf i))
         (fst (emit pc (record_of (carry @ take (i - ls) (drop ls buf))) (t, n)),
          snd (emit pc (record_of (carry @ take (i - ls) (drop ls buf))) (t, n)), [])"
proof (cases "0 < i - ls \<or> carry \<noteq> []")
  case True
  then show ?thesis
    using assms
    by (subst scan_buffer.simps)
       (auto simp: Let_def insert_trimmed_emit case_prod_beta)
next
  case False
  then have "take (i - ls) (drop ls buf) = []" "carry = []" by simp_all
  then show ?thesis
    using assms False
    by (subst scan_buffer.simps)
       (simp add: Let_def record_of_def trim_Nil emit_Nil)
qed

lemma scan_buffer_step_other:
  assumes "i < length buf" "\<not> is_delim (buf ! i)"
  shows "scan_buffer pc buf i ls (t, n, carry) = scan_buffer pc buf (Suc i) ls (t, n, carry)"
  using assms by (subst scan_buffer.simps) simp

lemma scan_buffer_done:
  "\<not> i < length buf \<Longrightarrow> scan_buffer pc buf i ls (t, n, carry) = (ls, t, n, carry)"
  by (subst scan_buffer.simps) simp

lemma skip_delims_drop:
  assumes "i < length buf"
  shows "\<exists>ds. drop (Suc i) buf = ds @ drop (Suc (skip_delims buf i)) buf
           \<and> (\<forall>c \<in> set ds. is_delim c) \<and> skip_delims buf i < length buf
           \<and> i \<le> skip_delims buf i"
proof -
  let ?ds = "takeWhile is_delim (drop (Suc i) buf)"
  have "drop (Suc i) buf = ?ds @ dropWhile is_delim (drop (Suc i) buf)" by simp
  moreover have "dropWhile is_delim (drop (Suc i) buf) = drop (length ?ds) (drop (Suc i) buf)"
    by (simp add: dropWhile_eq_drop)
  moreover have "length ?ds \<le> length buf - Suc i"
    using length_takeWhile_le[of is_delim "drop (Suc i) buf"] by simp
  ultimately show ?thesis
    using assms
    by (intro exI[of _ ?ds]) (auto simp: skip_delims_def add.commute dest: set_takeWhileD)
qed

lemma scan_buffer_lines:
  assumes "ls \<le> i" "i \<le> length buf"
    "\<forall>c \<in> set (carry @ take (i - ls) (drop ls buf)). \<not> is_delim c"
  shows "\<exists>ws ls' carry'.
      scan_buffer pc buf i ls (t, n, carry)
        = (ls', fst (emit pc ws (t, n)), snd (emit pc ws (t, n)), carry')
      \<and> (\<forall>c \<in> set (pending buf ls' carry'). \<not> is_delim c)
      \<and> (\<forall>rest. spec_lines (carry @ take (i - ls) (drop ls buf) @ drop i buf @ rest)
              = ws @ spec_lines (pending buf ls' carry' @ rest))"
  using assms
proof (induction "length buf - i" arbitrary: i ls t n carry rule: less_induct)
  case less
  let ?pend = "carry @ take (i - ls) (drop ls buf)"
  show ?case
  proof (cases "i < length buf")
    case False
    with less.prems have i: "i = length buf" by simp
    have "pending buf ls carry = ?pend"
      using less.prems(1) by (auto simp: pending_def i)
    with less.prems(3) i show ?thesis
      by (intro exI[of _ "[]"] exI[of _ ls] exI[of _ carry])
         (simp add: scan_buffer_done emit_Nil)
  next
    case lt: True
    show ?thesis
    proof (cases "is_delim (buf ! i)")
      case True
      let ?j = "skip_delims buf i"
      let ?st = "emit pc (record_of ?pend) (t, n)"
      from skip_delims_drop[OF lt] obtain ds where ds:
        "drop (Suc i) buf = ds @ drop (Suc ?j) buf" "\<forall>c \<in> set ds. is_delim c"
        "?j < length buf" "i \<le> ?j"
        by blast
      have "length buf - Suc ?j < length buf - i" using ds(3,4) by simp
      from less.hyps[OF this, of "Suc ?j" "[]" "fst ?st" "snd ?st"] ds(3)
      obtain ws ls' carry' where r:
        "scan_buffer pc buf (Suc ?j) (Suc ?j) (fst ?st, snd ?st, [])
           = (ls', fst (emit pc ws ?st), snd (emit pc ws ?st), carry')"
        "\<forall>c \<in> set (pending buf ls' carry'). \<not> is_delim c"
        "\<forall>rest. spec_lines (drop (Suc ?j) buf @ rest) = ws @ spec_lines (pending buf ls' carry' @ rest)"
        by auto
      have "spec_lines (?pend @ drop i buf @ rest)
            = (record_of ?pend @ ws) @ spec_lines (pending buf ls' carry' @ rest)" for rest
      proof -
        have "drop i buf = buf ! i # ds @ drop (Suc ?j) buf"
          using lt ds(1) by (simp add: Cons_nth_drop_Suc[symmetric])
        then have "spec_lines (?pend @ drop i buf @ rest)
            = record_of ?pend @ spec_lines (ds @ drop (Suc ?j) buf @ rest)"
          using spec_lines_record[OF less.prems(3) True, of "ds @ drop (Suc ?j) buf @ rest"]
          by simp
        also have "spec_lines (ds @ drop (Suc ?j) buf @ rest) = spec_lines (drop (Suc ?j) buf @ rest)"
          using ds(2) by (rule spec_lines_delims)
        finally show ?thesis using r(3) by simp
      qed
      with r(1,2) show ?thesis
        by (intro exI[of _ "record_of ?pend @ ws"] exI[of _ ls'] exI[of _ carry'])
           (simp add: scan_buffer_step_delim[OF lt True] emit_append)
    next
      case False
      have p: "carry @ take (Suc i - ls) (drop ls buf) = ?pend @ [buf ! i]"
        using less.prems(1) lt
        by (simp add: Suc_diff_le take_Suc_conv_app_nth)
      have "length buf - Suc i < length buf - i" using lt by simp
      from less.hyps[OF this, of ls carry t n] less.prems(1,3) lt False p
      obtain ws ls' carry' where r:
        "scan_buffer pc buf (Suc i) ls (t, n, carry)
           = (ls', fst (emit pc ws (t, n)), snd (emit pc ws (t, n)), carry')"
        "\<forall>c \<in> set (pending buf ls' carry'). \<not> is_delim c"
        "\<forall>rest. spec_lines ((?pend @ [buf ! i]) @ drop (Suc i) buf @ rest)
              = ws @ spec_lines (pending buf ls' carry' @ rest)"
        by auto
      have "drop i buf = buf ! i # drop (Suc i) buf"
        using lt by (simp add: Cons_nth_drop_Suc)
      with r show ?thesis
        by (intro exI[of _ ws] exI[of _ ls'] exI[of _ carry'])
           (simp add: scan_buffer_step_other[OF lt False])
    qed
  qed
qed

lemma read_loop_lines:
  assumes "0 < B" "\<forall>c \<in> set carry. \<not> is_delim c"
  shows "\<exists>ws carry'.
      read_loop pc B stream (t, n, carry)
        = (fst (emit pc ws (t, n)), snd (emit pc ws (t, n)), carry')
      \<and> (\<forall>c \<in> set carry'. \<not> is_delim c)
      \<and> spec_lines (carry @ stream) = ws @ spec_lines carry'"
  using assms(2)
proof (induction "length stream" arbitrary: stream t n carry rule: less_induct)
  case less
  show ?case
  proof (cases "take B stream = []")
    case True
    with assms(1) have "stream = []" by simp
    have "read_loop pc B [] (t, n, carry) = (t, n, carry)"
      by (subst read_loop.simps) simp
    with less.prems \<open>stream = []\<close> show ?thesis
      by (intro exI[of _ "[]"] exI[of _ carry]) (simp add: emit_Nil)
  next
    case False
    let ?buf = "take B stream"
    from scan_buffer_lines[of 0 0 ?buf carry pc t n] less.prems
    obtain ws1 ls' carry1 where s:
      "scan_buffer pc ?buf 0 0 (t, n, carry)
         = (ls', fst (emit pc ws1 (t, n)), snd (emit pc ws1 (t, n)), carry1)"
      "\<forall>c \<in> set (pending ?buf ls' carry1). \<not> is_delim c"
      "\<forall>rest. spec_lines (carry @ ?buf @ rest) = ws1 @ spec_lines (pending ?buf ls' carry1 @ rest)"
      by auto
    from False have "length (drop B stream) < length stream"
      using assms(1) by (cases stream) auto
    from less.hyps[OF this s(2), of "fst (emit pc ws1 (t, n))" "snd (emit pc ws1 (t, n))"]
    obtain ws2 carry' where r:
      "read_loop pc B (drop B stream)
          (fst (emit pc ws1 (t, n)), snd (emit pc ws1 (t, n)), pending ?buf ls' carry1)
        = (fst (emit pc ws2 (emit pc ws1 (t, n))), snd (emit pc ws2 (emit pc ws1 (t, n))), carry')"
      "\<forall>c \<in> set carry'. \<not> is_delim c"
      "spec_lines (pending ?buf ls' carry1 @ drop B stream) = ws2 @ spec_lines carry'"
      by auto
    have "read_loop pc B stream (t, n, carry)
        = read_loop pc B (drop B stream)
            (fst (emit pc ws1 (t, n)), snd (emit pc ws1 (t, n)), pending ?buf ls' carry1)"
      using False s(1)
      by (subst read_loop.simps) (simp add: Let_def pending_def)
    moreover have "spec_lines (carry @ stream) = (ws1 @ ws2) @ spec_lines carry'"
      using s(3)[rule_format, of "drop B stream"] r(3) by simp
    ultimately show ?thesis
      using r(1,2)
      by (intro exI[of _ "ws1 @ ws2"] exI[of _ carry']) (simp add: emit_append)
  qed
qed

lemma bulk_insert_spec:
  assumes "0 < B" "allocates alloc_ok B"
  shows "bulk_insert_from_file pc alloc_ok t (Some bytes) B
     = Inr (length (spec_lines bytes), foldl (insert_trie pc) t (spec_lines bytes))"
proof -
  from read_loop_lines[OF assms(1), of "[]" pc bytes t 0]
  obtain ws carry' where r:
    "read_loop pc B bytes (t, 0, []) = (fst (emit pc ws (t, 0)), snd (emit pc ws (t, 0)), carry')"
    "\<forall>c \<in> set carry'. \<not> is_delim c"
    "spec_lines bytes = ws @ spec_lines carry'"
    by auto
  from r(2) have l: "spec_lines carry' = record_of carry'" by (rule spec_lines_last)
  show ?thesis
  proof (cases "carry' = []")
    case True
    with r(1,3) l assms(2) show ?thesis
      by (simp add: bulk_insert_from_file_def emit_def record_of_def trim_Nil)
  next
    case False
    with r(1,3) l assms(2) show ?thesis
      by (simp add: bulk_insert_from_file_def insert_trimmed_emit emit_def case_prod_beta)
  qed
qed

lemma spec_records_shape:
  "\<forall>r \<in> set (spec_records s). r \<noteq> [] \<and> (\<forall>c \<in> set r. \<not> is_delim c)"
proof (induction s rule: spec_records.induct)
  case 1
  then show ?case by simp
next
  case (2 c s)
  let ?P = "\<lambda>x. \<not> is_delim x"
  show ?case
  proof (cases "is_delim c")
    case True
    have "spec_records (c # s) = spec_records s" using True by simp
    with 2(1)[OF True] show ?thesis by (simp only:)
  next
    case False
    have e: "spec_records (c # s) = (c # takeWhile ?P s) # spec_records (dropWhile ?P s)"
      using False by simp
    have a: "\<forall>x \<in> set (c # takeWhile ?P s). \<not> is_delim x"
      by (metis False set_ConsD set_takeWhileD)
    have n: "c # takeWhile ?P s \<noteq> []" by (rule list.distinct(2))
    from 2(2)[OF False] a n show ?thesis
      unfolding e by (blast dest: set_ConsD)
  qed
qed


text \<open>
  Claim C4.  With a positive buffer size, \<open>bulk_insert_from_file\<close> on a file that opens,
  with a buffer that can be allocated, inserts, in order, exactly the records of the byte
  stream: the stream is split at every run of \<open>\\n\<close> or \<open>\\r\<close> bytes, each record is
  trimmed of leading and trailing white space, records empty after trimming are skipped,
  every other record is passed to \<open>insert\<close> as it is, and the returned count is the
  number of these calls (a duplicate record counts again).  A file that does not open and
  a buffer that cannot be allocated are the two failures; nothing is inserted then.
\<close>

theorem bulk_insert_records:
  assumes "0 < buffer_size"
  shows "bulk_insert_from_file pc alloc_ok t file buffer_size
     = (case file of
          None \<Rightarrow> Inl OpenFailed
        | Some bytes \<Rightarrow>
            if allocates alloc_ok buffer_size
            then Inr (length (spec_lines bytes), foldl (insert_trie pc) t (spec_lines bytes))
            else Inl AllocFailed)"
proof (cases "file")
  case None
  then show ?thesis by (simp add: bulk_insert_from_file_def)
next
  case (Some bytes)
  show ?thesis
  proof (cases "allocates alloc_ok buffer_size")
    case True
    from bulk_insert_spec[OF assms True, of pc t bytes] True Some show ?thesis by simp
  next
    case False
    with Some show ?thesis by (simp add: bulk_insert_from_file_def)
  qed
qed

theorem bulk_insert_records_witness:
  "(0::nat) < 4
   \<and> bulk_insert_from_file SignedChar (serves_up_to (2 ^ 47)) empty_trie
         (Some (''ab'' @ [CHR 0x0D, CHR 0x0A] @ '' c '' @ [CHR 0x0A, CHR 0x0A] @ ''ab'')) 4
       = Inr (3, foldl (insert_trie SignedChar) empty_trie [''ab'', ''c'', ''ab''])
   \<and> bulk_insert_from_file SignedChar (serves_up_to (2 ^ 47)) empty_trie
         (Some (''ab'' @ [CHR 0x0D, CHR 0x0A] @ '' c '' @ [CHR 0x0A, CHR 0x0A] @ ''ab'')) (2 ^ 62)
       = Inl AllocFailed
   \<and> bulk_insert_from_file SignedChar (serves_up_to (2 ^ 47)) empty_trie None 4
       = Inl OpenFailed"
proof -
  let ?f = "''ab'' @ [CHR 0x0D, CHR 0x0A] @ '' c '' @ [CHR 0x0A, CHR 0x0A] @ ''ab''"
  have h: "(0::nat) < 4" "(0::nat) < 2 ^ 62" by simp_all
  have a: "allocates (serves_up_to (2 ^ 47)) 4" "\<not> allocates (serves_up_to (2 ^ 47)) (2 ^ 62)"
    by (simp_all add: allocates_def serves_up_to_def streamsize_max_def)
  have l: "spec_lines ?f = [''ab'', ''c'', ''ab'']"
    by code_simp
  from bulk_insert_records[OF h(1), of SignedChar "serves_up_to (2 ^ 47)" empty_trie "Some ?f"]
       bulk_insert_records[OF h(2), of SignedChar "serves_up_to (2 ^ 47)" empty_trie "Some ?f"]
       bulk_insert_records[OF h(1), of SignedChar "serves_up_to (2 ^ 47)" empty_trie None]
       a l h(1)
  show ?thesis by simp
qed

text \<open>
  Claim C3, as stated, fails: the buffer is a heap array of the size the caller chose,
  and a size the machine cannot allocate makes the call throw before anything is read.
  On a machine that serves requests of up to \<open>2^47\<close> bytes, a two-line file ingested with
  buffer size 4 returns the count 2 and leaves the two words in the trie; with buffer
  size \<open>2^62\<close> the call fails, with no count and the trie as it was.
\<close>

theorem buffer_allocation_counterexample:
  "(0::nat) < 4 \<and> (0::nat) < 2 ^ 62
   \<and> bulk_insert_from_file SignedChar (serves_up_to (2 ^ 47)) empty_trie
         (Some (''alpha'' @ [CHR 0x0A] @ ''beta'')) 4
       = Inr (2, foldl (insert_trie SignedChar) empty_trie [''alpha'', ''beta''])
   \<and> bulk_insert_from_file SignedChar (serves_up_to (2 ^ 47)) empty_trie
         (Some (''alpha'' @ [CHR 0x0A] @ ''beta'')) (2 ^ 62)
       = Inl AllocFailed
   \<and> bulk_insert_from_file SignedChar (serves_up_to (2 ^ 47)) empty_trie
         (Some (''alpha'' @ [CHR 0x0A] @ ''beta'')) 4
       \<noteq> bulk_insert_from_file SignedChar (serves_up_to (2 ^ 47)) empty_trie
         (Some (''alpha'' @ [CHR 0x0A] @ ''beta'')) (2 ^ 62)"
proof -
  let ?f = "''alpha'' @ [CHR 0x0A] @ ''beta''"
  have a: "allocates (serves_up_to (2 ^ 47)) 4" "\<not> allocates (serves_up_to (2 ^ 47)) (2 ^ 62)"
    by (simp_all add: allocates_def serves_up_to_def streamsize_max_def)
  have l: "spec_lines ?f = [''alpha'', ''beta'']"
    by code_simp
  have x: "bulk_insert_from_file SignedChar (serves_up_to (2 ^ 47)) empty_trie (Some ?f) 4
       = Inr (2, foldl (insert_trie SignedChar) empty_trie [''alpha'', ''beta''])"
    using bulk_insert_spec[OF _ a(1), of SignedChar empty_trie ?f] l by simp
  have y: "bulk_insert_from_file SignedChar (serves_up_to (2 ^ 47)) empty_trie (Some ?f) (2 ^ 62)
       = Inl AllocFailed"
    using a(2) by (simp add: bulk_insert_from_file_def)
  from x y show ?thesis by simp
qed

text \<open>
  Claim C3, amended.  For any two positive buffer sizes whose buffers can be allocated,
  the ingest of the same file gives the same result (the same error, or the same count
  and the same trie state), and on a file that opens the state is the one obtained by
  calling \<open>insert\<close> once on each trimmed non-empty line of the stream, in order.
\<close>

theorem streaming_equivalence:
  assumes "0 < B1" "0 < B2" "allocates alloc_ok B1" "allocates alloc_ok B2"
  shows "bulk_insert_from_file pc alloc_ok t file B1 = bulk_insert_from_file pc alloc_ok t file B2
    \<and> (\<forall>bytes. file = Some bytes \<longrightarrow>
          (\<exists>count. bulk_insert_from_file pc alloc_ok t file B1
                     = Inr (count, foldl (insert_trie pc) t (spec_lines bytes))
                 \<and> bulk_insert_from_file pc alloc_ok t file B2
                     = Inr (count, foldl (insert_trie pc) t (spec_lines bytes))))"
proof (cases "file")
  case None
  then show ?thesis by (simp add: bulk_insert_from_file_def)
next
  case (Some bytes)
  with bulk_insert_spec[OF assms(1,3), of pc t bytes] bulk_insert_spec[OF assms(2,4), of pc t bytes]
  show ?thesis by simp
qed

theorem streaming_equivalence_witness:
  "(0::nat) < 4 \<and> (0::nat) < 1048576
   \<and> allocates (serves_up_to (2 ^ 47)) 4 \<and> allocates (serves_up_to (2 ^ 47)) 1048576
   \<and> bulk_insert_from_file SignedChar (serves_up_to (2 ^ 47)) empty_trie
         (Some (''alpha'' @ [CHR 0x0A] @ ''beta'' @ [CHR 0x0D, CHR 0x0A] @ ''  delta  '')) 4
     = bulk_insert_from_file SignedChar (serves_up_to (2 ^ 47)) empty_trie
         (Some (''alpha'' @ [CHR 0x0A] @ ''beta'' @ [CHR 0x0D, CHR 0x0A] @ ''  delta  '')) 1048576
   \<and> bulk_insert_from_file SignedChar (serves_up_to (2 ^ 47)) empty_trie
         (Some (''alpha'' @ [CHR 0x0A] @ ''beta'' @ [CHR 0x0D, CHR 0x0A] @ ''  delta  '')) 4
     = Inr (3, foldl (insert_trie SignedChar) empty_trie [''alpha'', ''beta'', ''delta''])"
proof -
  let ?f = "''alpha'' @ [CHR 0x0A] @ ''beta'' @ [CHR 0x0D, CHR 0x0A] @ ''  delta  ''"
  have h: "(0::nat) < 4" "(0::nat) < 1048576" by simp_all
  have a: "allocates (serves_up_to (2 ^ 47)) 4" "allocates (serves_up_to (2 ^ 47)) 1048576"
    by (simp_all add: allocates_def serves_up_to_def streamsize_max_def)
  have l: "spec_lines ?f = [''alpha'', ''beta'', ''delta'']"
    by code_simp
  have x: "bulk_insert_from_file SignedChar (serves_up_to (2 ^ 47)) empty_trie (Some ?f) 4
     = Inr (3, foldl (insert_trie SignedChar) empty_trie [''alpha'', ''beta'', ''delta''])"
    using bulk_insert_spec[OF h(1) a(1), of SignedChar empty_trie ?f] l by simp
  from streaming_equivalence[OF h a, of SignedChar empty_trie "Some ?f"]
  have y: "bulk_insert_from_file SignedChar (serves_up_to (2 ^ 47)) empty_trie (Some ?f) 4
     = bulk_insert_from_file SignedChar (serves_up_to (2 ^ 47)) empty_trie (Some ?f) 1048576"
    by blast
  from h a y x show ?thesis by (intro conjI)
qed

section \<open>The invariant of reachable states\<close>

lemma collect_put_child_parts:
  assumes "i < length (children n)"
  shows "\<exists>A B. \<forall>x. collect_words_from_node (put_child n i x) q
            = A @ collect_words_from_node x (q @ key n) @ B"
proof -
  let ?f = "\<lambda>p. collect_words_from_node (snd p) (q @ key n)"
  let ?A = "(if is_end n then [q @ key n] else []) @ concat (map ?f (take i (children n)))"
  let ?B = "concat (map ?f (drop (Suc i) (children n)))"
  have "collect_words_from_node (put_child n i x) q
            = ?A @ collect_words_from_node x (q @ key n) @ ?B" for x
    using assms
    by (simp add: collect_unfold[of "put_child n i x"] upd_conv_take_nth_drop)
  then show ?thesis by blast
qed

lemma length_collect_clear:
  "valid_path n p \<Longrightarrow> is_end (node_at n p) \<Longrightarrow>
   length (collect_words_from_node n q)
     = Suc (length (collect_words_from_node (update_at n p clear_end) q))"
proof (induction p arbitrary: n q)
  case Nil
  then show ?case
    by (simp add: collect_unfold[of n] collect_unfold[of "clear_end n"] clear_end_def set_is_end_def)
next
  case (Cons i p)
  let ?child = "snd (children n ! i)"
  from Cons.prems have lt: "i < length (children n)" and v: "valid_path ?child p"
    and e: "is_end (node_at ?child p)" by simp_all
  from collect_put_child_parts[OF lt, of q] obtain A B where
    ab: "\<And>x. collect_words_from_node (put_child n i x) q
            = A @ collect_words_from_node x (q @ key n) @ B" by blast
  from ab[of ?child] lt have "collect_words_from_node n q
     = A @ collect_words_from_node ?child (q @ key n) @ B"
    by (simp add: put_child_same del: put_child_sel)
  moreover have "collect_words_from_node (update_at n (i # p) clear_end) q
     = A @ collect_words_from_node (update_at ?child p clear_end) (q @ key n) @ B"
    by (simp only: update_at_Cons ab)
  ultimately show ?case
    using Cons.IH[OF v e, of "q @ key n"] by simp
qed

lemma length_collect_insert_loop:
  assumes "rem \<noteq> []"
  shows "length (collect_words_from_node (fst (insert_loop pc n rem)) q)
     = (if snd (insert_loop pc n rem) then Suc (length (collect_words_from_node n q))
        else length (collect_words_from_node n q))"
proof (cases "snd (insert_loop pc n rem)")
  case True
  from insert_loop_found[OF assms, of pc n] True
  obtain p where p: "descend pc (fst (insert_loop pc n rem)) rem = Some p"
     "is_end (node_at (fst (insert_loop pc n rem)) p)"
     "\<forall>q. collect_words_from_node (update_at (fst (insert_loop pc n rem)) p clear_end) q
               = collect_words_from_node n q"
    by blast
  from length_collect_clear[OF descend_valid[OF p(1)] p(2), of q] p(3) True
  show ?thesis by simp
next
  case False
  with insert_loop_stored[OF assms, of pc n] show ?thesis by simp
qed

lemma update_at_clear_sel:
  "key (update_at n p clear_end) = key n" "parent_char (update_at n p clear_end) = parent_char n"
  "p \<noteq> [] \<Longrightarrow> is_end (update_at n p clear_end) = is_end n"
  "children (update_at n [] clear_end) = children n"
  by (cases p; simp add: clear_end_def set_is_end_def set_children_def)+

lemma wf_clear_end: "wf_node pc n \<Longrightarrow> wf_node pc (clear_end n)"
  by (cases n) (simp add: clear_end_def set_is_end_def)

lemma wf_update_at_clear:
  "wf_node pc n \<Longrightarrow> valid_path n p \<Longrightarrow> wf_node pc (update_at n p clear_end)"
proof (induction p arbitrary: n)
  case Nil
  then show ?case by (simp add: wf_clear_end)
next
  case (Cons i p)
  let ?child = "snd (children n ! i)"
  from Cons.prems have lt: "i < length (children n)" and v: "valid_path ?child p" by simp_all
  from Cons.prems(1) lt have ch: "key ?child \<noteq> []" "hd (key ?child) = fst (children n ! i)"
     "parent_char ?child = fst (children n ! i)" "wf_node pc ?child"
    unfolding wf_unfold[of pc n] by (auto dest: nth_mem)
  from Cons.IH[OF ch(4) v] have "wf_node pc (update_at ?child p clear_end)" .
  with Cons.prems(1) lt ch have "wf_node pc (put_child n i (update_at ?child p clear_end))"
    by (intro wf_put_child) (simp_all add: update_at_clear_sel)
  then show ?case by (simp only: update_at_Cons)
qed

lemma trie_inv_empty: "trie_inv pc empty_trie"
  by (simp add: trie_inv_def empty_trie_def empty_node_def)

lemma trie_inv_insert:
  assumes "trie_inv pc t"
  shows "trie_inv pc (insert_trie pc t w)"
proof (cases "w = []")
  case True
  with assms show ?thesis by (simp add: insert_trie_def)
next
  case False
  from assms insert_loop_sel[of pc "root t" w] wf_insert_loop[of pc "root t" w]
       length_collect_insert_loop[OF False, of pc "root t" "[]"]
  show ?thesis
    by (simp add: trie_inv_def insert_trie_alt[OF False])
qed

lemma remove_trie_result:
  "remove_trie pc t w = (False, t)
   \<or> (\<exists>p. descend pc (root t) w = Some p \<and> is_end (node_at (root t) p)
        \<and> remove_trie pc t w
            = (True, t\<lparr>root := update_at (root t) p clear_end, word_count := word_count t - 1\<rparr>))"
  by (auto simp: remove_trie_def find_node_def cleanup_orphaned_nodes_id clear_end_eq
           split: if_splits option.splits)

lemma trie_inv_remove:
  assumes "trie_inv pc t"
  shows "trie_inv pc (snd (remove_trie pc t w))"
proof (cases "remove_trie pc t w = (False, t)")
  case True
  with assms show ?thesis by simp
next
  case False
  with remove_trie_result[of pc t w]
  obtain p where p: "descend pc (root t) w = Some p" "is_end (node_at (root t) p)"
    and r: "snd (remove_trie pc t w)
        = t\<lparr>root := update_at (root t) p clear_end, word_count := word_count t - 1\<rparr>"
    by auto
  from assms p(2) have pne: "p \<noteq> []" by (auto simp: trie_inv_def)
  from length_collect_clear[OF descend_valid[OF p(1)] p(2), of "[]"] assms
  have "word_count t - 1 = length (collect_words_from_node (update_at (root t) p clear_end) [])"
    by (simp add: trie_inv_def)
  with assms wf_update_at_clear[OF _ descend_valid[OF p(1)], of pc] pne show ?thesis
    by (simp add: trie_inv_def r update_at_clear_sel)
qed

lemma trie_inv_foldl:
  "trie_inv pc t \<Longrightarrow> trie_inv pc (foldl (insert_trie pc) t ws)"
  by (induction ws arbitrary: t) (simp_all add: trie_inv_insert)

lemma bulk_insert_foldl:
  assumes "bulk_insert_from_file pc alloc_ok t f B = Inr (n, t')"
  shows "\<exists>ws. t' = foldl (insert_trie pc) t ws"
proof (cases "B = 0")
  case True
  have "read_loop pc 0 s st = st" for s st
    by (subst read_loop.simps) simp
  with assms True have "t' = t"
    by (cases f) (auto simp: bulk_insert_from_file_def split: if_splits)
  then show ?thesis by (intro exI[of _ "[]"]) simp
next
  case False
  show ?thesis
  proof (cases f)
    case None
    with assms show ?thesis by (simp add: bulk_insert_from_file_def)
  next
    case (Some bytes)
    with assms have a: "allocates alloc_ok B"
      by (auto simp: bulk_insert_from_file_def split: if_splits)
    from False have "0 < B" by simp
    from bulk_insert_spec[OF this a, of pc t bytes] assms Some show ?thesis by auto
  qed
qed

lemma reachable_inv: "reachable pc t \<Longrightarrow> trie_inv pc t"
proof (induction rule: reachable.induct)
  case reachable_init
  then show ?case by (rule trie_inv_empty)
next
  case (reachable_insert t w)
  then show ?case by (simp add: trie_inv_insert)
next
  case (reachable_remove t w)
  then show ?case by (simp add: trie_inv_remove)
next
  case (reachable_clear t)
  then show ?case using trie_inv_empty[of pc] by (simp add: clear_def empty_trie_def)
next
  case (reachable_bulk t alloc_ok f B n t')
  from bulk_insert_foldl[OF reachable_bulk(2)] obtain ws
    where "t' = foldl (insert_trie pc) t ws" by blast
  with reachable_bulk(3) show ?case by (simp add: trie_inv_foldl)
qed

section \<open>Wildcard search\<close>

lemma collect_prefix:
  "w \<in> set (collect_words_from_node n q) \<Longrightarrow> \<exists>s. w = q @ key n @ s"
proof (induction n q arbitrary: w rule: collect_words_from_node.induct)
  case (1 k e pch cs prefix)
  from 1(2) consider "w = prefix @ k" | p where "p \<in> set cs"
      "w \<in> set (collect_words_from_node (snd p) (prefix @ k))"
    by (auto simp: Let_def split: if_splits)
  then show ?case
  proof cases
    case 1
    then show ?thesis by simp
  next
    case 2
    from 1(1)[OF refl 2(1) 2(2)] show ?thesis by auto
  qed
qed

lemma words_nonempty:
  assumes "trie_inv pc t"
  shows "[] \<notin> set (collect_words_from_node (root t) [])"
proof
  assume "[] \<in> set (collect_words_from_node (root t) [])"
  with assms obtain p where p: "p \<in> set (children (root t))"
     "[] \<in> set (collect_words_from_node (snd p) [])"
    by (auto simp: trie_inv_def collect_unfold[of "root t"])
  from collect_prefix[OF p(2)] have "key (snd p) = []" by simp
  moreover from assms p(1) have "key (snd p) \<noteq> []"
    unfolding trie_inv_def wf_unfold[of pc "root t"] by blast
  ultimately show False by simp
qed

lemma empty_no_words:
  "trie_inv pc t \<Longrightarrow> empty t \<Longrightarrow> collect_words_from_node (root t) [] = []"
  by (simp add: trie_inv_def empty_def)

text \<open>
  Claim C7.  On every reachable state and for every pattern, \<open>pattern_search(pat)\<close> is
  the ascending sort of the words of \<open>words_with_prefix("")\<close> that match \<open>pat\<close> under the
  glob semantics (\<open>?\<close> one byte, \<open>*\<close> zero or more bytes); the empty pattern returns the
  empty list, and the pattern \<open>*\<close> returns all stored words, sorted.
\<close>

theorem pattern_search_sorted_filter:
  assumes "reachable pc t"
  shows "pattern_search t pat = sort (filter (spec_glob pat) (words_with_prefix pc t []))
    \<and> pattern_search t [] = []
    \<and> pattern_search t [CHR ''*''] = sort (words_with_prefix pc t [])"
proof -
  from assms have inv: "trie_inv pc t" by (rule reachable_inv)
  let ?ws = "collect_words_from_node (root t) []"
  have w: "words_with_prefix pc t [] = ?ws" by (simp add: words_with_prefix_def)
  have m: "(\<lambda>w. matches_pattern w p) = spec_glob p" for p
    by (rule ext) (rule matches_pattern_glob)
  have gen: "pattern_search t p = sort (filter (spec_glob p) ?ws)" for p
  proof (cases "p = []")
    case True
    from words_nonempty[OF inv] have "filter (spec_glob []) ?ws = []"
      by (auto simp: filter_empty_conv)
    with True show ?thesis by (simp add: pattern_search_def)
  next
    case ne: False
    show ?thesis
    proof (cases "empty t")
      case True
      with empty_no_words[OF inv] show ?thesis by (simp add: pattern_search_def)
    next
      case False
      with ne show ?thesis
        by (simp add: pattern_search_def pattern_match_recursive_filter m)
    qed
  qed
  have "filter (spec_glob [CHR ''*'']) ?ws = ?ws"
    using glob_star_only by (simp add: filter_id_conv)
  with gen[of pat] gen[of "[CHR ''*'']"] show ?thesis
    by (simp add: w pattern_search_def)
qed

theorem pattern_search_sorted_filter_witness:
  "reachable SignedChar (insert_trie SignedChar (insert_trie SignedChar
       (insert_trie SignedChar empty_trie ''cat'') ''dog'') ''car'')
   \<and> pattern_search (insert_trie SignedChar (insert_trie SignedChar
       (insert_trie SignedChar empty_trie ''cat'') ''dog'') ''car'') ''c?*'' = [''car'', ''cat'']"
proof -
  let ?t = "insert_trie SignedChar (insert_trie SignedChar
       (insert_trie SignedChar empty_trie ''cat'') ''dog'') ''car''"
  have r: "reachable SignedChar ?t"
    by (intro reachable_insert reachable_init)
  have "sort (filter (spec_glob ''c?*'') (words_with_prefix SignedChar ?t [])) = [''car'', ''cat'']"
    by code_simp
  with pattern_search_sorted_filter[OF r, of "''c?*''"] r show ?thesis by simp
qed

section \<open>Order of the child vectors\<close>

lemma children_sorted_unfold:
  "children_sorted lt n =
     (sorted_wrt lt (map fst (children n)) \<and> distinct (map fst (children n))
      \<and> (\<forall>p \<in> set (children n). children_sorted lt (snd p)))"
  by (cases n) simp

lemma sorted_char_less_distinct: "sorted_wrt (char_less pc) ks \<Longrightarrow> distinct ks"
  by (induction ks) (auto simp: char_less_irrefl)

lemma wf_children_sorted: "wf_node pc n \<Longrightarrow> children_sorted (char_less pc) n"
proof (induction pc n rule: wf_node.induct)
  case (1 pc k e pch cs)
  then show ?case by (auto simp: sorted_char_less_distinct)
qed

lemma char_less_unsigned: "char_less UnsignedChar = (<)"
proof (intro ext)
  fix a b :: char
  have "(of_char a :: int) = int (of_char a)" "(of_char b :: int) = int (of_char b)"
    by (simp_all add: of_nat_of_char)
  then show "char_less UnsignedChar a b = (a < b)"
    by (simp add: char_less_def less_char_def)
qed


lemma char_less_ascii:
  assumes "(of_char a :: nat) < 128" "(of_char b :: nat) < 128"
  shows "char_less pc a b = (a < b)"
proof -
  have i: "(of_char a :: int) = int (of_char a)" "(of_char b :: int) = int (of_char b)"
    by (simp_all add: of_nat_of_char)
  with assms have "(of_char a :: int) < 128" "(of_char b :: int) < 128" by simp_all
  then show ?thesis
    using i by (cases pc) (simp_all add: char_less_def less_char_def)
qed

lemma children_sorted_below:
  "b \<le> 128 \<Longrightarrow> children_sorted (char_less pc) n \<Longrightarrow> keys_below b n
   \<Longrightarrow> children_sorted (<) n"
proof (induction b n rule: keys_below.induct)
  case (1 b k e pch cs)
  from 1(2,4) have "\<forall>x \<in> set (map fst cs). (of_char x :: nat) < 128" by fastforce
  then have "\<forall>x \<in> set (map fst cs). \<forall>y \<in> set (map fst cs). char_less pc x y \<longrightarrow> x < y"
    by (simp add: char_less_ascii)
  with 1(3) have "sorted_wrt (<) (map fst cs)"
    by (intro sorted_wrt_mono_rel[of "map fst cs" "char_less pc" "(<)"]) auto
  with 1 show ?case by auto
qed

lemma children_sorted_ascii:
  "children_sorted (char_less pc) n \<Longrightarrow> keys_below 128 n \<Longrightarrow> children_sorted (<) n"
  by (rule children_sorted_below[of 128]) simp_all

section \<open>Emission order\<close>

subsection \<open>The full enumeration is ascending\<close>

lemma word_less_append_right: "s \<noteq> [] \<Longrightarrow> word_less lt w (w @ s)"
  by (induction w) (cases s; simp)+

lemma word_less_diverge: "lt a b \<Longrightarrow> word_less lt (w @ a # x) (w @ b # y)"
  by (induction w) auto

lemma word_less_string: "word_less (<) x y = (x < y)"
  by (induction "(<) :: char \<Rightarrow> char \<Rightarrow> bool" x y rule: word_less.induct) simp_all

lemma word_less_irrefl: "(\<And>a. \<not> lt a a) \<Longrightarrow> \<not> word_less lt w w"
  by (induction w) auto

lemma sorted_wrt_concat:
  "sorted_wrt P (concat xss)
     = ((\<forall>xs \<in> set xss. sorted_wrt P xs)
        \<and> sorted_wrt (\<lambda>xs ys. \<forall>x \<in> set xs. \<forall>y \<in> set ys. P x y) xss)"
  by (induction xss) (auto simp: sorted_wrt_append)

lemma collect_child_shape:
  assumes "wf_node pc n" "p \<in> set (children n)" "w \<in> set (collect_words_from_node (snd p) q)"
  shows "\<exists>s. w = q @ fst p # s"
proof -
  from assms(1,2) have k: "key (snd p) \<noteq> []" "hd (key (snd p)) = fst p"
    unfolding wf_unfold[of pc n] by auto
  then obtain r where r: "key (snd p) = fst p # r" by (cases "key (snd p)") auto
  from collect_prefix[OF assms(3)] obtain s where "w = q @ key (snd p) @ s" by blast
  with r show ?thesis by simp
qed

lemma collect_sorted:
  "wf_node pc n \<Longrightarrow> children_sorted lt n \<Longrightarrow>
   sorted_wrt (word_less lt) (collect_words_from_node n q)"
proof (induction n q rule: collect_words_from_node.induct)
  case (1 k e pch cs prefix)
  let ?n = "RadixNode k e pch cs"
  let ?f = "\<lambda>p. collect_words_from_node (snd p) (prefix @ k)"
  let ?R = "\<lambda>xs ys. \<forall>x \<in> set xs. \<forall>y \<in> set ys. word_less lt x y"
  have each: "\<forall>p \<in> set cs. sorted_wrt (word_less lt) (?f p)"
    using 1 by auto
  have shape: "\<exists>s. w = (prefix @ k) @ fst p # s" if "p \<in> set cs" "w \<in> set (?f p)" for p w
    using collect_child_shape[OF 1(2), of p w "prefix @ k"] that by simp
  have "sorted_wrt (\<lambda>a b. lt (fst a) (fst b)) cs"
    using 1(3) by (simp add: sorted_wrt_map)
  then have "sorted_wrt (\<lambda>a b. ?R (?f a) (?f b)) cs"
  proof (rule sorted_wrt_mono_rel[rotated])
    fix a b assume ab: "a \<in> set cs" "b \<in> set cs" "lt (fst a) (fst b)"
    show "?R (?f a) (?f b)"
    proof (intro ballI)
      fix x y assume "x \<in> set (?f a)" "y \<in> set (?f b)"
      with shape ab obtain s s' where "x = (prefix @ k) @ fst a # s" "y = (prefix @ k) @ fst b # s'"
        by blast
      with ab(3) show "word_less lt x y" by (simp only: word_less_diverge)
    qed
  qed
  then have between: "sorted_wrt ?R (map ?f cs)"
    by (simp add: sorted_wrt_map)
  from each between have rest: "sorted_wrt (word_less lt) (concat (map ?f cs))"
    by (simp add: sorted_wrt_concat)
  have first: "word_less lt (prefix @ k) w" if "w \<in> set (concat (map ?f cs))" for w
  proof -
    from that obtain p where "p \<in> set cs" "w \<in> set (?f p)" by auto
    with shape obtain s where "w = (prefix @ k) @ fst p # s" by blast
    then show ?thesis using word_less_append_right[of "fst p # s" lt "prefix @ k"] by simp
  qed
  from rest first show ?case
    by (auto simp: Let_def sorted_wrt_append)
qed

subsection \<open>Prefix enumeration is a filter of the full enumeration\<close>

lemma lower_bound_nth:
  "sorted_wrt (char_less pc) ks \<Longrightarrow> i < length ks \<Longrightarrow> lower_bound pc ks (ks ! i) = i"
proof (induction ks arbitrary: i)
  case Nil
  then show ?case by simp
next
  case (Cons k ks)
  show ?case
  proof (cases i)
    case 0
    then show ?thesis by (simp add: lower_bound_def char_less_irrefl)
  next
    case (Suc j)
    with Cons.prems have "char_less pc k (ks ! j)" "j < length ks" by auto
    with Cons.IH[of j] Cons.prems(1) Suc show ?thesis
      by (simp add: lower_bound_def)
  qed
qed

lemma find_child_nth:
  assumes "wf_node pc n" "i < length (children n)"
  shows "find_child pc n (fst (children n ! i)) = i"
proof -
  from assms(1) have "sorted_wrt (char_less pc) (map fst (children n))"
    by (simp add: wf_unfold[of pc n])
  from lower_bound_nth[OF this, of i] assms(2) show ?thesis
    by (simp add: find_child_def)
qed

lemma find_child_mem:
  assumes "wf_node pc n" "p \<in> set (children n)"
  shows "\<not> no_child n (find_child pc n (fst p)) (fst p)
         \<and> children n ! find_child pc n (fst p) = p"
proof -
  from assms(2) obtain i where i: "i < length (children n)" "children n ! i = p"
    by (auto simp: in_set_conv_nth)
  with find_child_nth[OF assms(1) i(1)] show ?thesis
    by (simp add: no_child_def)
qed

lemma no_child_no_key:
  assumes "wf_node pc n" "no_child n (find_child pc n c) c"
  shows "\<forall>p \<in> set (children n). fst p \<noteq> c"
  using find_child_mem[OF assms(1)] assms(2) by blast

lemma has_prefix_split:
  assumes "pos \<le> length prefix"
  shows "has_prefix prefix (take pos prefix @ r) = has_prefix (drop pos prefix) r"
proof -
  have e: "take (length prefix) (take pos prefix @ r)
      = take pos prefix @ take (length prefix - pos) r"
    using assms by (simp add: min_def)
  have "(take pos prefix @ x = prefix) = (x = drop pos prefix)" for x
    by (metis append_take_drop_id same_append_eq)
  then show ?thesis unfolding has_prefix_def e by simp
qed

lemma has_prefix_short: "length w < length p \<Longrightarrow> \<not> has_prefix p w"
  by (auto simp: has_prefix_def)

lemma has_prefix_hd: "p \<noteq> [] \<Longrightarrow> has_prefix p (c # s) \<Longrightarrow> hd p = c"
  by (cases p) (auto simp: has_prefix_def)

lemma filter_concat_single:
  assumes "i < length cs" "distinct (map fst cs)"
    "\<forall>p \<in> set cs. fst p \<noteq> fst (cs ! i) \<longrightarrow> g p = []"
  shows "concat (map g cs) = g (cs ! i)"
proof -
  have cs: "cs = take i cs @ cs ! i # drop (Suc i) cs"
    using assms(1) by (simp add: id_take_nth_drop[symmetric])
  from assms(2) have "distinct (map fst (take i cs @ cs ! i # drop (Suc i) cs))"
    using cs by simp
  then have "fst (cs ! i) \<notin> fst ` (set (take i cs) \<union> set (drop (Suc i) cs))"
    by auto
  then have d: "\<forall>p \<in> set (take i cs) \<union> set (drop (Suc i) cs). fst p \<noteq> fst (cs ! i)"
    by (metis image_eqI)
  have "\<forall>p \<in> set (take i cs) \<union> set (drop (Suc i) cs). g p = []"
  proof
    fix p assume p: "p \<in> set (take i cs) \<union> set (drop (Suc i) cs)"
    then have "p \<in> set cs" by (auto dest: in_set_takeD in_set_dropD)
    with p d assms(3) show "g p = []" by blast
  qed
  then have z: "concat (map g (take i cs)) = []" "concat (map g (drop (Suc i) cs)) = []"
    by auto
  have "concat (map g cs) = concat (map g (take i cs @ cs ! i # drop (Suc i) cs))"
    using cs by (rule arg_cong)
  also have "\<dots> = concat (map g (take i cs)) @ g (cs ! i) @ concat (map g (drop (Suc i) cs))"
    by simp
  also have "\<dots> = g (cs ! i)"
    unfolding z by simp
  finally show ?thesis .
qed

lemma wwp_loop_filter:
  "wf_node pc current \<Longrightarrow> pos \<le> length prefix \<Longrightarrow> take pos prefix = base @ key current \<Longrightarrow>
   wwp_loop pc prefix current pos
     = filter (has_prefix prefix) (collect_words_from_node current base)"
proof (induction pc prefix current pos arbitrary: base rule: wwp_loop.induct)
  case (1 pc prefix current pos)
  let ?P = "has_prefix prefix"
  let ?q = "take pos prefix"
  let ?f = "\<lambda>p. collect_words_from_node (snd p) ?q"
  have un: "collect_words_from_node current base
      = (if is_end current then [?q] else []) @ concat (map ?f (children current))"
    using 1(4) by (simp add: collect_unfold[of current base])
  show ?case
  proof (cases "pos < length prefix")
    case False
    with 1(3) have pos: "pos = length prefix" by simp
    with 1(4) have b: "prefix = base @ key current" by simp
    have bp: "(if key current \<noteq> [] \<and> length (key current) \<le> length prefix
               then take (length prefix - length (key current)) prefix else prefix) = base"
      using b by auto
    have "\<forall>w \<in> set (collect_words_from_node current base). ?P w"
    proof
      fix w assume "w \<in> set (collect_words_from_node current base)"
      from collect_prefix[OF this] obtain s where "w = base @ key current @ s" by blast
      with b show "?P w" by (simp add: has_prefix_def)
    qed
    then have "filter ?P (collect_words_from_node current base) = collect_words_from_node current base"
      by (simp add: filter_id_conv)
    with pos bp show ?thesis
      by (subst wwp_loop.simps) (simp add: Let_def)
  next
    case lt: True
    let ?c = "prefix ! pos"
    let ?it = "find_child pc current ?c"
    let ?d = "drop pos prefix"
    from lt have dne: "?d \<noteq> []" and hd: "hd ?d = ?c" by (simp_all add: hd_drop_conv_nth)
    have own: "filter ?P (if is_end current then [?q] else []) = []"
      using lt by (simp add: has_prefix_short)
    have other: "filter ?P (?f p) = []" if "p \<in> set (children current)" "fst p \<noteq> ?c" for p
    proof -
      have "\<not> ?P w" if w: "w \<in> set (?f p)" for w
      proof
        assume "?P w"
        from collect_child_shape[OF 1(2) \<open>p \<in> set (children current)\<close> w]
        obtain s where s: "w = ?q @ fst p # s" by blast
        with \<open>?P w\<close> 1(3) have "has_prefix ?d (fst p # s)" by (simp add: has_prefix_split)
        from has_prefix_hd[OF dne this] hd \<open>fst p \<noteq> ?c\<close> show False by simp
      qed
      then show ?thesis by (simp add: filter_empty_conv)
    qed
    have fc: "filter ?P (collect_words_from_node current base)
        = concat (map (\<lambda>p. filter ?P (?f p)) (children current))"
      by (simp add: un own filter_concat comp_def del: filter.simps)
    show ?thesis
    proof (cases "no_child current ?it ?c")
      case True
      from no_child_no_key[OF 1(2) True] other
      have "\<forall>p \<in> set (children current). filter ?P (?f p) = []" by blast
      then have "concat (map (\<lambda>p. filter ?P (?f p)) (children current)) = []" by simp
      with fc True lt show ?thesis
        by (subst wwp_loop.simps) (simp add: Let_def)
    next
      case hc: False
      then have i: "?it < length (children current)" and fi: "fst (children current ! ?it) = ?c"
        by (simp_all add: no_child_def)
      let ?child = "snd (children current ! ?it)"
      let ?ck = "key ?child"
      have dist: "distinct (map fst (children current))"
        using 1(2) sorted_char_less_distinct[of pc "map fst (children current)"]
        by (simp add: wf_unfold[of pc current])
      from i 1(2) have wfc: "wf_node pc ?child"
        unfolding wf_unfold[of pc current] by (auto dest: nth_mem)
      have single: "concat (map (\<lambda>p. filter ?P (?f p)) (children current))
          = filter ?P (collect_words_from_node ?child ?q)"
        using filter_concat_single[OF i dist, of "\<lambda>p. filter ?P (?f p)"] other fi by simp
      have words: "\<exists>s. w = ?q @ ?ck @ s" if "w \<in> set (collect_words_from_node ?child ?q)" for w
        using collect_prefix[OF that] by simp
      have hp: "?P (?q @ ?ck @ s) = has_prefix ?d (?ck @ s)" for s
        using 1(3) by (rule has_prefix_split)
      show ?thesis
      proof (cases "pos + length ?ck > length prefix")
        case long: True
        then have l: "length ?d \<le> length ?ck" by simp
        have hp': "?P (?q @ ?ck @ s) = (?d = take (length prefix - pos) ?ck)" for s
          unfolding hp using l by (auto simp: has_prefix_def)
        have "filter ?P (collect_words_from_node ?child ?q)
            = (if ?d = take (length prefix - pos) ?ck then collect_words_from_node ?child ?q else [])"
        proof (cases "?d = take (length prefix - pos) ?ck")
          case True
          with words hp' have "\<forall>w \<in> set (collect_words_from_node ?child ?q). ?P w" by metis
          with True show ?thesis by (simp add: filter_id_conv)
        next
          case False
          with words hp' have "\<forall>w \<in> set (collect_words_from_node ?child ?q). \<not> ?P w" by metis
          with False show ?thesis by (simp add: filter_empty_conv)
        qed
        with fc single hc lt long show ?thesis
          by (subst wwp_loop.simps) (simp add: Let_def)
      next
        case short: False
        then have l: "length ?ck \<le> length ?d" by simp
        show ?thesis
        proof (cases "take (length ?ck) ?d = ?ck")
          case False
          have "\<not> ?P w" if "w \<in> set (collect_words_from_node ?child ?q)" for w
          proof
            assume "?P w"
            with words[OF that] hp obtain s where "has_prefix ?d (?ck @ s)" by auto
            then have "take (length ?d) (?ck @ s) = ?d" by (simp add: has_prefix_def)
            then have "take (length ?ck) (take (length ?d) (?ck @ s)) = take (length ?ck) ?d" by simp
            with l have "?ck = take (length ?ck) ?d" by (simp add: min_def)
            with False show False by simp
          qed
          then have "filter ?P (collect_words_from_node ?child ?q) = []"
            by (simp add: filter_empty_conv)
          with fc single hc lt short False show ?thesis
            by (subst wwp_loop.simps) (simp add: Let_def)
        next
          case True
          have le': "pos + length ?ck \<le> length prefix" using short by simp
          have tk: "take (pos + length ?ck) prefix = ?q @ ?ck"
            using True by (simp add: take_add)
          from 1(1)[OF lt refl refl hc refl refl short _ wfc le' tk] True
          have "wwp_loop pc prefix ?child (pos + length ?ck)
              = filter ?P (collect_words_from_node ?child ?q)" by simp
          with fc single hc lt short True show ?thesis
            by (subst wwp_loop.simps) (simp add: Let_def)
        qed
      qed
    qed
  qed
qed

lemma words_with_prefix_filter:
  assumes "trie_inv pc t"
  shows "words_with_prefix pc t p = filter (has_prefix p) (words_with_prefix pc t [])"
proof (cases "p = []")
  case True
  then show ?thesis by (simp add: has_prefix_def)
next
  case False
  from assms have "wf_node pc (root t)" "key (root t) = []" by (simp_all add: trie_inv_def)
  with wwp_loop_filter[of pc "root t" 0 p "[]"] False show ?thesis
    by (simp add: words_with_prefix_def)
qed

lemma wf_node_at: "wf_node pc n \<Longrightarrow> valid_path n pa \<Longrightarrow> wf_node pc (node_at n pa)"
proof (induction pa arbitrary: n)
  case Nil
  then show ?case by simp
next
  case (Cons i pa)
  from Cons.prems have "wf_node pc (snd (children n ! i))"
    unfolding wf_unfold[of pc n] by (auto dest: nth_mem)
  with Cons.IH Cons.prems(2) show ?case by simp
qed

lemma words_sorted:
  assumes "trie_inv pc t"
  shows "sorted_wrt (word_less (char_less pc)) (words_with_prefix pc t [])"
proof -
  from assms have wf: "wf_node pc (root t)" by (simp add: trie_inv_def)
  from collect_sorted[OF wf wf_children_sorted[OF wf], of "[]"] show ?thesis
    by (simp add: words_with_prefix_def)
qed


text \<open>
  Claim C8, as stated, fails where plain \<open>char\<close> is signed: the bytes \<open>0x80\<close> to \<open>0xFF\<close>
  are negative there and sort before the ASCII bytes.  After inserting the word \<open>"a"\<close> and
  the word made of the two bytes \<open>0xC3 0xA9\<close> (the UTF-8 form of e-acute), the root's
  children are \<open>0xC3\<close>, \<open>'a'\<close>, which is not ascending in unsigned byte order.
\<close>

theorem children_unsigned_order_counterexample:
  "reachable SignedChar
     (insert_trie SignedChar (insert_trie SignedChar empty_trie ''a'') [CHR 0xC3, CHR 0xA9])
   \<and> \<not> children_sorted (<)
         (root (insert_trie SignedChar (insert_trie SignedChar empty_trie ''a'')
                  [CHR 0xC3, CHR 0xA9]))"
proof -
  let ?t = "insert_trie SignedChar (insert_trie SignedChar empty_trie ''a'') [CHR 0xC3, CHR 0xA9]"
  have "reachable SignedChar ?t"
    by (intro reachable_insert reachable_init)
  moreover have "\<not> children_sorted (<) (root ?t)"
    by code_simp
  ultimately show ?thesis by blast
qed

text \<open>
  Claim C8, amended.  On every reachable state, each node's child vector is strictly
  ascending by its first-byte key in the order of C++ plain \<open>char\<close>, without duplicate
  keys; this is unsigned byte order where plain \<open>char\<close> is unsigned, and wherever all
  child keys are ASCII bytes (below \<open>0x80\<close>).  \<open>words_with_prefix\<close> follows this child
  order at every node:
  \<^item> at every node (every valid path from the root) the child keys are ascending and
    distinct, and the words emitted from the node's subtree are strictly ascending in
    \<open>word_less\<close>, the byte-wise lexicographic order built on the order of the child keys
    in which a proper prefix precedes: the node's own word comes first, then the words
    below its children, child by child in the order of the vector;
  \<^item> for every prefix \<open>p\<close>, \<open>words_with_prefix(p)\<close> is the list of the words of
    \<open>words_with_prefix("")\<close> that begin with \<open>p\<close>, in the same order, hence ascending
    too;
  \<^item> where the child order is unsigned byte order, the lists are ascending in the order
    \<open><\<close> of the byte strings.
\<close>

theorem children_sorted_plain_char:
  assumes "reachable pc t"
  shows "children_sorted (char_less pc) (root t)
    \<and> (pc = UnsignedChar \<or> keys_below 128 (root t) \<longrightarrow> children_sorted (<) (root t))
    \<and> words_with_prefix pc t []
        = concat (map (\<lambda>p. collect_words_from_node (snd p) []) (children (root t)))
    \<and> (\<forall>pa q. valid_path (root t) pa \<longrightarrow>
           sorted_wrt (char_less pc) (map fst (children (node_at (root t) pa)))
           \<and> distinct (map fst (children (node_at (root t) pa)))
           \<and> sorted_wrt (word_less (char_less pc))
                (collect_words_from_node (node_at (root t) pa) q))
    \<and> (\<forall>p. words_with_prefix pc t p = filter (has_prefix p) (words_with_prefix pc t [])
           \<and> sorted_wrt (word_less (char_less pc)) (words_with_prefix pc t p)
           \<and> (pc = UnsignedChar \<or> keys_below 128 (root t)
                \<longrightarrow> sorted_wrt (<) (words_with_prefix pc t p)))"
proof -
  from assms have inv: "trie_inv pc t" by (rule reachable_inv)
  have n: "sorted_wrt (char_less pc) (map fst (children (node_at (root t) pa)))
           \<and> distinct (map fst (children (node_at (root t) pa)))
           \<and> sorted_wrt (word_less (char_less pc))
                (collect_words_from_node (node_at (root t) pa) q)"
    if "valid_path (root t) pa" for pa q
  proof -
    from inv that have w: "wf_node pc (node_at (root t) pa)"
      by (simp add: trie_inv_def wf_node_at)
    from wf_children_sorted[OF w] collect_sorted[OF w wf_children_sorted[OF w], of q]
    show ?thesis
      by (simp add: children_sorted_unfold[of _ "node_at (root t) pa"])
  qed
  have c: "words_with_prefix pc t []
        = concat (map (\<lambda>p. collect_words_from_node (snd p) []) (children (root t)))"
    using inv by (simp add: words_with_prefix_def trie_inv_def collect_unfold[of "root t"])
  from inv have wf: "wf_node pc (root t)" by (simp add: trie_inv_def)
  then have s: "children_sorted (char_less pc) (root t)"
    by (rule wf_children_sorted)
  from s have u: "pc = UnsignedChar \<or> keys_below 128 (root t)
      \<longrightarrow> children_sorted (<) (root t)"
    using children_sorted_ascii[of pc "root t"] by (auto simp: char_less_unsigned)
  have all: "words_with_prefix pc t [] = collect_words_from_node (root t) []"
    by (simp add: words_with_prefix_def)
  have f: "words_with_prefix pc t p = filter (has_prefix p) (words_with_prefix pc t [])" for p
    using inv by (rule words_with_prefix_filter)
  have a: "sorted_wrt (word_less (char_less pc)) (words_with_prefix pc t p)" for p
    using words_sorted[OF inv] by (subst f) (rule sorted_wrt_filter)
  have b: "sorted_wrt (<) (words_with_prefix pc t p)"
    if "pc = UnsignedChar \<or> keys_below 128 (root t)" for p
  proof -
    from that u have "children_sorted (<) (root t)" by blast
    from collect_sorted[OF wf this, of "[]"]
    have "sorted_wrt (word_less (<)) (words_with_prefix pc t [])" by (simp only: all)
    moreover have "word_less (<) = (<)"
      by (intro ext) (rule word_less_string)
    ultimately have "sorted_wrt (<) (words_with_prefix pc t [])" by simp
    then show ?thesis by (subst f) (rule sorted_wrt_filter)
  qed
  from s u c n f a b show ?thesis by blast
qed

theorem children_sorted_plain_char_witness:
  "reachable UnsignedChar
     (insert_trie UnsignedChar (insert_trie UnsignedChar empty_trie [CHR 0xC3, CHR 0xA9]) ''a'')
   \<and> children_sorted (<)
        (root (insert_trie UnsignedChar (insert_trie UnsignedChar empty_trie [CHR 0xC3, CHR 0xA9]) ''a''))
   \<and> words_with_prefix UnsignedChar
        (insert_trie UnsignedChar (insert_trie UnsignedChar empty_trie [CHR 0xC3, CHR 0xA9]) ''a'') []
      = [''a'', [CHR 0xC3, CHR 0xA9]]
   \<and> reachable SignedChar
        (insert_trie SignedChar (insert_trie SignedChar (insert_trie SignedChar
           (insert_trie SignedChar empty_trie ''help'') ''b'') ''hello'') ''he'')
   \<and> keys_below 128 (root (insert_trie SignedChar (insert_trie SignedChar (insert_trie SignedChar
           (insert_trie SignedChar empty_trie ''help'') ''b'') ''hello'') ''he''))
   \<and> children_sorted (<)
        (root (insert_trie SignedChar (insert_trie SignedChar (insert_trie SignedChar
           (insert_trie SignedChar empty_trie ''help'') ''b'') ''hello'') ''he''))
   \<and> words_with_prefix SignedChar
        (insert_trie SignedChar (insert_trie SignedChar (insert_trie SignedChar
           (insert_trie SignedChar empty_trie ''help'') ''b'') ''hello'') ''he'') []
      = [''b'', ''he'', ''hello'', ''help'']
   \<and> words_with_prefix SignedChar
        (insert_trie SignedChar (insert_trie SignedChar (insert_trie SignedChar
           (insert_trie SignedChar empty_trie ''help'') ''b'') ''hello'') ''he'') ''hel''
      = [''hello'', ''help'']
   \<and> sorted_wrt (<) (words_with_prefix SignedChar
        (insert_trie SignedChar (insert_trie SignedChar (insert_trie SignedChar
           (insert_trie SignedChar empty_trie ''help'') ''b'') ''hello'') ''he'') ''hel'')
   \<and> valid_path (root (insert_trie SignedChar (insert_trie SignedChar (insert_trie SignedChar
           (insert_trie SignedChar empty_trie ''help'') ''b'') ''hello'') ''he'')) [1, 0]
   \<and> sorted_wrt (word_less (char_less SignedChar)) [''hello'', ''help'']"
proof -
  let ?t = "insert_trie UnsignedChar (insert_trie UnsignedChar empty_trie [CHR 0xC3, CHR 0xA9]) ''a''"
  let ?u = "insert_trie SignedChar (insert_trie SignedChar (insert_trie SignedChar
           (insert_trie SignedChar empty_trie ''help'') ''b'') ''hello'') ''he''"
  have r: "reachable UnsignedChar ?t"
    by (intro reachable_insert reachable_init)
  have q: "reachable SignedChar ?u"
    by (intro reachable_insert reachable_init)
  have k: "keys_below 128 (root ?u)"
    by code_simp
  have w: "words_with_prefix UnsignedChar ?t [] = [''a'', [CHR 0xC3, CHR 0xA9]]"
    by code_simp
  have x: "words_with_prefix SignedChar ?u [] = [''b'', ''he'', ''hello'', ''help'']"
    by code_simp
  have y: "filter (has_prefix ''hel'') [''b'', ''he'', ''hello'', ''help''] = [''hello'', ''help'']"
    by code_simp
  note T = children_sorted_plain_char[OF r]
  note U = children_sorted_plain_char[OF q]
  from T have t1: "children_sorted (<) (root ?t)" by blast
  from U k have u1: "children_sorted (<) (root ?u)" by blast
  from U have "words_with_prefix SignedChar ?u ''hel''
      = filter (has_prefix ''hel'') (words_with_prefix SignedChar ?u [])" by blast
  with x y have u2: "words_with_prefix SignedChar ?u ''hel'' = [''hello'', ''help'']"
    by (simp only:)
  from U k have u3: "sorted_wrt (<) (words_with_prefix SignedChar ?u ''hel'')" by blast
  have v: "valid_path (root ?u) [1, 0]" by code_simp
  have c: "collect_words_from_node (node_at (root ?u) [1, 0]) ''he'' = [''hello'', ''help'']"
    by code_simp
  from U v have "sorted_wrt (word_less (char_less SignedChar))
       (collect_words_from_node (node_at (root ?u) [1, 0]) ''he'')" by blast
  with c have u4: "sorted_wrt (word_less (char_less SignedChar)) [''hello'', ''help'']"
    by (simp only:)
  from r q k w x t1 u1 u2 u3 v u4 show ?thesis by (intro conjI)
qed


section \<open>Compression\<close>

lemma compact_unfold:
  "compact n = (\<forall>p \<in> set (children n). node_ok (snd p) \<and> compact (snd p))"
  by (cases n) simp

lemma compact_put_child:
  assumes "compact n" "node_ok x" "compact x"
  shows "compact (put_child n i x)"
proof -
  have "set ((children n)[i := (fst (children n ! i), x)])
      \<subseteq> insert (fst (children n ! i), x) (set (children n))"
    by (rule set_update_subset_insert)
  with assms show ?thesis
    unfolding compact_unfold[of "put_child n i x"] compact_unfold[of n] by auto
qed

lemma compact_add_leaf: "compact m \<Longrightarrow> compact (add_leaf pc m r)"
  unfolding compact_unfold[of "add_leaf pc m r"] compact_unfold[of m]
  by (auto simp: node_ok_def dest: in_set_takeD in_set_dropD)

lemma compact_split_inter:
  "compact child \<Longrightarrow> node_ok child \<Longrightarrow> compact (split_inter child c cl)"
  by (cases child) (simp add: split_inter_def set_parent_char_def set_key_def node_ok_def)

lemma children_grow: "length (children n) \<le> length (children (fst (insert_loop pc n rem)))"
proof (induction n rem rule: insert_loop_induct[of _ pc])
  case (nil n)
  then show ?case by (simp add: insert_loop_nil)
next
  case (new n rem)
  then show ?case by (simp add: insert_loop_new)
next
  case (hit n rem i child)
  then show ?case by (simp add: insert_loop_hit[OF hit(1-6)])
next
  case (down n rem i child)
  then show ?case by (simp add: insert_loop_down[OF down(1-6)])
next
  case (split_end n rem i child)
  then show ?case by (simp add: insert_loop_split_end[OF split_end(1-6)])
next
  case (split_more n rem i child cl)
  then show ?case by (simp add: insert_loop_split_more[OF split_more(1-7)])
qed

lemma compact_insert_loop: "compact n \<Longrightarrow> compact (fst (insert_loop pc n rem))"
proof (induction n rem rule: insert_loop_induct[of _ pc])
  case (nil n)
  then show ?case by (simp add: insert_loop_nil)
next
  case (new n rem)
  then show ?case by (simp add: insert_loop_new compact_add_leaf del: add_leaf_sel)
next
  case (hit n rem i child)
  from hit(3) have lt: "i < length (children n)" by (simp add: no_child_def)
  with hit(7) have ch: "compact child"
    unfolding compact_unfold[of n] hit(4) by (auto dest: nth_mem)
  have "compact (set_is_end child True)" "node_ok (set_is_end child True)"
    using ch by (cases child; simp add: set_is_end_def node_ok_def)+
  with hit(7) have "compact (put_child n i (set_is_end child True))"
    by (intro compact_put_child)
  with hit(7) show ?case
    by (simp add: insert_loop_hit[OF hit(1-6)] del: put_child_sel)
next
  case (down n rem i child)
  from down(3) have lt: "i < length (children n)" by (simp add: no_child_def)
  with down(8) have ch: "compact child" "node_ok child"
    unfolding compact_unfold[of n] down(4) by (auto dest: nth_mem)
  let ?x = "fst (insert_loop pc child (drop (length (key child)) rem))"
  from down(7)[OF ch(1)] have "compact ?x" .
  moreover have "node_ok ?x"
    using ch(2) insert_loop_sel[of pc child "drop (length (key child)) rem"]
          children_grow[of child pc "drop (length (key child)) rem"]
    by (auto simp: node_ok_def)
  ultimately have "compact (put_child n i ?x)"
    using down(8) by (intro compact_put_child)
  then show ?case
    by (simp add: insert_loop_down[OF down(1-6)] del: put_child_sel)
next
  case (split_end n rem i child)
  from split_end(3) have lt: "i < length (children n)" by (simp add: no_child_def)
  with split_end(7) have ch: "compact child" "node_ok child"
    unfolding compact_unfold[of n] split_end(4) by (auto dest: nth_mem)
  let ?m = "split_inter child (hd rem) (length rem)"
  from compact_split_inter[OF ch] have "compact ?m" .
  then have "compact (set_is_end ?m True)" "node_ok (set_is_end ?m True)"
    by (cases ?m; simp add: set_is_end_def node_ok_def)+
  with split_end(7) have "compact (put_child n i (set_is_end ?m True))"
    by (intro compact_put_child)
  then show ?case
    by (simp add: insert_loop_split_end[OF split_end(1-6)] del: put_child_sel)
next
  case (split_more n rem i child cl)
  from split_more(3) have lt: "i < length (children n)" by (simp add: no_child_def)
  with split_more(8) have ch: "compact child" "node_ok child"
    unfolding compact_unfold[of n] split_more(4) by (auto dest: nth_mem)
  let ?m = "split_inter child (hd rem) cl"
  let ?x = "add_leaf pc ?m (drop cl rem)"
  from compact_split_inter[OF ch] have "compact ?x" by (rule compact_add_leaf)
  moreover have "node_ok ?x"
    using find_child_le[of pc ?m "hd (drop cl rem)"]
    by (simp add: node_ok_def split_inter_def)
  ultimately have "compact (put_child n i ?x)"
    using split_more(8) by (intro compact_put_child)
  then show ?case
    by (simp add: insert_loop_split_more[OF split_more(1-7)] del: put_child_sel)
qed

lemma compact_compressed: "compact n \<Longrightarrow> compressed n"
proof (induction n rule: compressed.induct)
  case (1 k e pch cs)
  then show ?case by (auto simp: node_ok_def)
qed

lemma built_compact: "built_by_inserts pc t \<Longrightarrow> compact (root t)"
proof (induction rule: built_by_inserts.induct)
  case built_init
  then show ?case by (simp add: empty_trie_def empty_node_def)
next
  case (built_insert t w)
  then show ?case
    by (cases "w = []") (simp_all add: insert_trie_def compact_insert_loop case_prod_beta)
qed

text \<open>
  Claim C1, as stated, fails: \<open>remove\<close> only clears the flag of the node it finds (the
  cleanup that follows never detaches anything, and no code merges a node with its only
  child).  After inserting \<open>"ab"\<close> and \<open>"abc"\<close> and removing \<open>"ab"\<close>, the node \<open>"ab"\<close> is
  not terminal and has the single child \<open>"c"\<close>.
\<close>

theorem remove_breaks_compression_counterexample:
  "reachable SignedChar (snd (remove_trie SignedChar
       (insert_trie SignedChar (insert_trie SignedChar empty_trie ''ab'') ''abc'') ''ab''))
   \<and> \<not> compressed (root (snd (remove_trie SignedChar
       (insert_trie SignedChar (insert_trie SignedChar empty_trie ''ab'') ''abc'') ''ab'')))"
proof -
  have "reachable SignedChar (snd (remove_trie SignedChar
       (insert_trie SignedChar (insert_trie SignedChar empty_trie ''ab'') ''abc'') ''ab''))"
    by (intro reachable_remove reachable_insert reachable_init)
  moreover have "\<not> compressed (root (snd (remove_trie SignedChar
       (insert_trie SignedChar (insert_trie SignedChar empty_trie ''ab'') ''abc'') ''ab'')))"
    by code_simp
  ultimately show ?thesis by blast
qed

text \<open>
  Claim C1, amended.  After any sequence of \<open>insert\<close> operations starting from the
  empty trie, there is no non-root node with \<open>is_end\<close> false and exactly one child:
  every non-root node is terminal or has at least two children.
\<close>

theorem inserts_keep_compressed:
  assumes "built_by_inserts pc t"
  shows "compressed (root t) \<and> compact (root t)"
  using assms by (simp add: compact_compressed built_compact)

theorem inserts_keep_compressed_witness:
  "built_by_inserts SignedChar (insert_trie SignedChar (insert_trie SignedChar
       (insert_trie SignedChar empty_trie ''hello'') ''help'') ''he'')
   \<and> compressed (root (insert_trie SignedChar (insert_trie SignedChar
       (insert_trie SignedChar empty_trie ''hello'') ''help'') ''he''))"
proof -
  have b: "built_by_inserts SignedChar (insert_trie SignedChar (insert_trie SignedChar
       (insert_trie SignedChar empty_trie ''hello'') ''help'') ''he'')"
    by (intro built_insert built_init)
  from inserts_keep_compressed[OF b] b show ?thesis by simp
qed

section \<open>Modes of the statistics\<close>

lemma frequency_fold:
  "foldl (\<lambda>m x. m(x := m x + 1)) m0 xs k = m0 k + int (count_list xs k)"
  by (induction xs arbitrary: m0) auto

lemma frequency_count: "frequency xs k = int (count_list xs k)"
  by (simp add: frequency_def frequency_fold)

lemma inserted_keys_set: "set (inserted_keys xs) = set xs" "distinct (inserted_keys xs)"
  by (simp_all add: inserted_keys_def)

lemma ex_max_list:
  "ks \<noteq> [] \<Longrightarrow> \<exists>y \<in> set ks. \<forall>j \<in> set ks. f j \<le> (f y :: int)"
proof (induction ks)
  case Nil
  then show ?case by simp
next
  case (Cons k ks)
  show ?case
  proof (cases "ks = []")
    case True
    then show ?thesis by simp
  next
    case False
    with Cons.IH obtain y where y: "y \<in> set ks" "\<forall>j \<in> set ks. f j \<le> f y" by blast
    show ?thesis
    proof (cases "f y \<le> f k")
      case True
      with y show ?thesis by force
    next
      case False
      with y show ?thesis by force
    qed
  qed
qed

lemma mode_fold:
  "foldl (mode_step f) (mc, m) ks =
     (case filter (\<lambda>x. mc < f x \<and> (\<forall>j \<in> set ks. f j \<le> f x)) ks of
        [] \<Rightarrow> (mc, m)
      | b # _ \<Rightarrow> (f b, Some b))"
proof (induction ks arbitrary: mc m)
  case Nil
  then show ?case by simp
next
  case (Cons k ks)
  let ?best = "\<lambda>c l. filter (\<lambda>x. c < f x \<and> (\<forall>j \<in> set l. f j \<le> f x)) l"
  show ?case
  proof (cases "mc < f k")
    case True
    then have step: "foldl (mode_step f) (mc, m) (k # ks) = foldl (mode_step f) (f k, Some k) ks"
      by (simp add: mode_step_def)
    show ?thesis
    proof (cases "?best (f k) ks = []")
      case e: True
      then have le: "\<forall>j \<in> set ks. f j \<le> f k"
      proof -
        { fix j assume j: "j \<in> set ks" "f k < f j"
          then have "ks \<noteq> []" by auto
          then obtain y where y: "y \<in> set ks" "\<forall>j \<in> set ks. f j \<le> f y"
            using ex_max_list[of ks f] by blast
          with j have "f k < f y" by force
          with y e have False by (auto simp: filter_empty_conv)
        }
        then show ?thesis by force
      qed
      with True have "?best mc (k # ks) = k # filter (\<lambda>x. mc < f x \<and> f k \<le> f x
            \<and> (\<forall>j \<in> set ks. f j \<le> f x)) ks"
        by simp
      with e Cons.IH[of "f k" "Some k"] step show ?thesis by simp
    next
      case ne: False
      then obtain b bs where b: "?best (f k) ks = b # bs" by (cases "?best (f k) ks") auto
      then have "b \<in> set (?best (f k) ks)" by simp
      then have bb: "b \<in> set ks" "f k < f b" "\<forall>j \<in> set ks. f j \<le> f b" by auto
      have "(mc < f x \<and> (\<forall>j \<in> set (k # ks). f j \<le> f x))
           = (f k < f x \<and> (\<forall>j \<in> set ks. f j \<le> f x))" if "x \<in> set ks" for x
        using that bb True by force
      then have "filter (\<lambda>x. mc < f x \<and> (\<forall>j \<in> set (k # ks). f j \<le> f x)) ks = ?best (f k) ks"
        by (intro filter_cong) auto
      moreover have "\<not> (\<forall>j \<in> set (k # ks). f j \<le> f k)"
        using bb by force
      ultimately have "?best mc (k # ks) = b # bs"
        using b by simp
      with b Cons.IH[of "f k" "Some k"] step show ?thesis by simp
    qed
  next
    case False
    then have step: "foldl (mode_step f) (mc, m) (k # ks) = foldl (mode_step f) (mc, m) ks"
      by (simp add: mode_step_def)
    have "(mc < f x \<and> (\<forall>j \<in> set (k # ks). f j \<le> f x))
           = (mc < f x \<and> (\<forall>j \<in> set ks. f j \<le> f x))" if "x \<in> set ks" for x
      using that False by force
    then have "filter (\<lambda>x. mc < f x \<and> (\<forall>j \<in> set (k # ks). f j \<le> f x)) ks = ?best mc ks"
      by (intro filter_cong) auto
    with False have "?best mc (k # ks) = ?best mc ks" by simp
    with Cons.IH[of mc m] step show ?thesis by simp
  qed
qed

lemma count_list_pos: "x \<in> set xs \<Longrightarrow> 0 < count_list xs x"
  by (induction xs) auto

lemma mode_of_first:
  assumes "xs \<noteq> []" "iteration_order ord"
  shows "mode_of ord xs = Some (first_most_frequent (ord (inserted_keys xs)) xs)
     \<and> most_frequent xs (first_most_frequent (ord (inserted_keys xs)) xs)"
proof -
  let ?ks = "ord (inserted_keys xs)"
  let ?f = "frequency xs"
  let ?best = "filter (\<lambda>k. \<forall>x \<in> set xs. count_list xs x \<le> count_list xs k) ?ks"
  from assms(2) have ks: "set ?ks = set xs" "distinct ?ks"
    by (simp_all add: iteration_order_def inserted_keys_set)
  have pos: "0 < ?f x" if "x \<in> set xs" for x
    using that by (simp add: frequency_count count_list_pos)
  have "(0 < ?f x \<and> (\<forall>j \<in> set ?ks. ?f j \<le> ?f x))
      = (\<forall>j \<in> set xs. count_list xs j \<le> count_list xs x)" if "x \<in> set ?ks" for x
    using that pos ks(1) by (simp add: frequency_count)
  then have eq: "filter (\<lambda>x. 0 < ?f x \<and> (\<forall>j \<in> set ?ks. ?f j \<le> ?f x)) ?ks = ?best"
    by (intro filter_cong) auto
  from assms(1) ks(1) have "?ks \<noteq> []" by auto
  from ex_max_list[OF this, of ?f] obtain y where
    y: "y \<in> set ?ks" "\<forall>j \<in> set ?ks. ?f j \<le> ?f y" by blast
  then have "y \<in> set ?best" using ks(1) by (simp add: frequency_count)
  then obtain b bs where b: "?best = b # bs" by (cases ?best) auto
  then have "b \<in> set ?best" by simp
  then have mf: "most_frequent xs b" using ks(1) by (simp add: most_frequent_def)
  have "mode_of ord xs = Some b"
    using mode_fold[of ?f 0 None ?ks] eq b by (simp add: mode_of_def)
  with b mf show ?thesis by (simp add: first_most_frequent_def)
qed

lemma sorted_order_lowest:
  assumes "iteration_order ord" "sorted (ord (inserted_keys xs))"
  shows "first_most_frequent (ord (inserted_keys xs)) xs = lowest_mode xs"
proof -
  from assms(1) have "set (ord (inserted_keys xs)) = set xs" "distinct (ord (inserted_keys xs))"
    by (simp_all add: iteration_order_def inserted_keys_set)
  with assms(2) have "ord (inserted_keys xs) = sort (remdups xs)"
    by (intro sorted_distinct_set_unique) simp_all
  then show ?thesis by (simp add: lowest_mode_def)
qed

section \<open>Depths and lengths of the stored words\<close>

lemma descend_child:
  assumes "wf_node pc n" "p \<in> set (children n)"
  shows "descend pc n (key (snd p) @ s)
     = map_option ((#) (find_child pc n (fst p))) (descend pc (snd p) s)"
proof -
  from assms have k: "key (snd p) \<noteq> []" "hd (key (snd p)) = fst p"
    unfolding wf_unfold[of pc n] by auto
  let ?rem = "key (snd p) @ s"
  from k have ne: "?rem \<noteq> []" and h: "hd ?rem = fst p" by simp_all
  from find_child_mem[OF assms] h
  have hc: "\<not> no_child n (find_child pc n (hd ?rem)) (hd ?rem)"
    and c: "snd p = snd (children n ! find_child pc n (hd ?rem))" by simp_all
  from descend_step[OF ne refl hc c] h show ?thesis
    by (simp add: cpl_full_iff)
qed

lemma collect_descend:
  "wf_node pc n \<Longrightarrow> w \<in> set (collect_words_from_node n q) \<Longrightarrow>
   \<exists>path s. w = q @ key n @ s \<and> descend pc n s = Some path \<and> is_end (node_at n path)"
proof (induction n q arbitrary: w rule: collect_words_from_node.induct)
  case (1 k e pch cs prefix)
  let ?n = "RadixNode k e pch cs"
  from 1(3) consider "e" "w = prefix @ k" | p where "p \<in> set cs"
      "w \<in> set (collect_words_from_node (snd p) (prefix @ k))"
    by (auto simp: Let_def split: if_splits)
  then show ?case
  proof cases
    case 1
    then show ?thesis
      by (intro exI[of _ "[]"]) (simp add: descend_nil)
  next
    case 2
    from 1(2) 2(1) have wfc: "wf_node pc (snd p)" by auto
    from 1(1)[OF refl 2(1) wfc 2(2)] obtain path s where
      ps: "w = (prefix @ k) @ key (snd p) @ s" "descend pc (snd p) s = Some path"
          "is_end (node_at (snd p) path)"
      by blast
    from 2(1) have pm: "p \<in> set (children ?n)" by simp
    let ?i = "find_child pc ?n (fst p)"
    from descend_child[OF 1(2) pm, of s] ps(2)
    have d: "descend pc ?n (key (snd p) @ s) = Some (?i # path)" by simp
    from find_child_mem[OF 1(2) pm] have "children ?n ! ?i = p" by simp
    with ps(3) have "is_end (node_at ?n (?i # path))" by simp
    with d ps(1) show ?thesis
      by (intro exI[of _ "?i # path"] exI[of _ "key (snd p) @ s"]) simp
  qed
qed

lemma descend_collect:
  "descend pc n s = Some path \<Longrightarrow> is_end (node_at n path) \<Longrightarrow>
   q @ key n @ s \<in> set (collect_words_from_node n q)"
proof (induction pc n s arbitrary: path q rule: descend.induct)
  case (1 pc current rem)
  show ?case
  proof (cases "rem = []")
    case True
    with 1(2,3) show ?thesis
      by (simp add: descend_nil collect_unfold[of current q])
  next
    case ne: False
    let ?i = "find_child pc current (hd rem)"
    let ?child = "snd (children current ! ?i)"
    from 1(2) ne have hc: "\<not> no_child current ?i (hd rem)"
      using descend_no_child[of rem current pc] by auto
    from 1(2) descend_step[OF ne refl hc refl]
    obtain p' where p': "common_prefix_length (key ?child) rem = length (key ?child)"
        "descend pc ?child (drop (length (key ?child)) rem) = Some p'" "path = ?i # p'"
      by (auto split: if_splits)
    from p'(1) have a: "\<not> length rem < length (key ?child)"
       "take (length (key ?child)) rem = key ?child"
      by (simp_all add: cpl_full_iff)
    from 1(3) p'(3) have e: "is_end (node_at ?child p')" by simp
    from a(2) have r: "key ?child @ drop (length (key ?child)) rem = rem"
      by (metis append_take_drop_id)
    from 1(1)[OF ne refl refl hc refl refl _ _ p'(2) e, of "q @ key current"] a
    have "(q @ key current) @ key ?child @ drop (length (key ?child)) rem
        \<in> set (collect_words_from_node ?child (q @ key current))" by simp
    with r have m: "q @ key current @ rem \<in> set (collect_words_from_node ?child (q @ key current))"
      by simp
    from hc have "children current ! ?i \<in> set (children current)"
      by (simp add: no_child_def)
    with m show ?thesis
      by (auto simp: collect_unfold[of current q])
  qed
qed

lemma heights_descend:
  "wf_node pc n \<Longrightarrow>
   calculate_heights_recursive n d
     = map (\<lambda>w. d + int (length (the (descend pc n (drop (length (q @ key n)) w)))))
           (collect_words_from_node n q)"
proof (induction n q arbitrary: d rule: collect_words_from_node.induct)
  case (1 k e pch cs prefix)
  let ?n = "RadixNode k e pch cs"
  let ?F = "\<lambda>w. d + int (length (the (descend pc ?n (drop (length (prefix @ k)) w))))"
  let ?f = "\<lambda>p. collect_words_from_node (snd p) (prefix @ k)"
  have child: "calculate_heights_recursive (snd p) (d + 1) = map ?F (?f p)" if p: "p \<in> set cs" for p
  proof -
    from 1(2) p have wfc: "wf_node pc (snd p)" by auto
    from p have pm: "p \<in> set (children ?n)" by simp
    let ?G = "\<lambda>w. d + 1 + int (length (the (descend pc (snd p)
                 (drop (length ((prefix @ k) @ key (snd p))) w))))"
    have "?G w = ?F w" if w: "w \<in> set (?f p)" for w
    proof -
      from collect_descend[OF wfc w] obtain path s where
        ps: "w = (prefix @ k) @ key (snd p) @ s" "descend pc (snd p) s = Some path"
        by blast
      from ps(1) have d1: "drop (length ((prefix @ k) @ key (snd p))) w = s" by simp
      from ps(1) have d2: "drop (length (prefix @ k)) w = key (snd p) @ s" by simp
      from descend_child[OF 1(2) pm, of s] ps(2) show ?thesis
        by (simp only: d1 d2) simp
    qed
    then have "map ?G (?f p) = map ?F (?f p)" by (intro map_cong) simp_all
    with 1(1)[OF refl p wfc, of "d + 1"] show ?thesis by simp
  qed
  have "concat (map (\<lambda>p. calculate_heights_recursive (snd p) (d + 1)) cs)
      = concat (map (\<lambda>p. map ?F (?f p)) cs)"
    using child by (intro arg_cong[where f=concat] map_cong) simp_all
  also have "\<dots> = map ?F (concat (map ?f cs))"
    by (simp add: map_concat comp_def)
  finally show ?case
    by (simp add: Let_def descend_nil)
qed

lemma lengths_words:
  "collect_word_lengths_recursive n l
     = map (\<lambda>w. l + int (length w) - int (length q)) (collect_words_from_node n q)"
proof (induction n q arbitrary: l rule: collect_words_from_node.induct)
  case (1 k e pch cs prefix)
  let ?F = "\<lambda>w. l + int (length w) - int (length prefix)"
  let ?f = "\<lambda>p. collect_words_from_node (snd p) (prefix @ k)"
  have "concat (map (\<lambda>p. collect_word_lengths_recursive (snd p) (l + int (length k))) cs)
      = concat (map (\<lambda>p. map ?F (?f p)) cs)"
    using 1[OF refl, of _ "l + int (length k)"]
    by (intro arg_cong[where f=concat] map_cong) simp_all
  also have "\<dots> = map ?F (concat (map ?f cs))"
    by (simp add: map_concat comp_def)
  finally show ?case
    by (simp add: Let_def)
qed

lemma sorted_wrt_distinct: "(\<And>a. \<not> P a a) \<Longrightarrow> sorted_wrt P xs \<Longrightarrow> distinct xs"
  by (induction xs) auto

lemma words_distinct:
  assumes "trie_inv pc t"
  shows "distinct (words_with_prefix pc t [])"
  using words_sorted[OF assms] word_less_irrefl[of "char_less pc"] char_less_irrefl[of pc]
        sorted_wrt_distinct[of "word_less (char_less pc)" "words_with_prefix pc t []"]
  by blast

lemma words_search:
  assumes "trie_inv pc t"
  shows "(w \<in> set (words_with_prefix pc t [])) = search pc t w"
proof
  assume w: "w \<in> set (words_with_prefix pc t [])"
  then have m: "w \<in> set (collect_words_from_node (root t) [])"
    by (simp add: words_with_prefix_def)
  from assms have wf: "wf_node pc (root t)" and k: "key (root t) = []"
    by (simp_all add: trie_inv_def)
  from collect_descend[OF wf m] k obtain path where
    "descend pc (root t) w = Some path" "is_end (node_at (root t) path)" by auto
  moreover from words_nonempty[OF assms] m have "w \<noteq> []" by auto
  ultimately show "search pc t w" by (simp add: search_stored stored_def)
next
  assume "search pc t w"
  then obtain path where "descend pc (root t) w = Some path" "is_end (node_at (root t) path)"
    by (auto simp: search_stored stored_def split: option.splits)
  from descend_collect[OF this, of "[]"] assms show "w \<in> set (words_with_prefix pc t [])"
    by (simp add: words_with_prefix_def trie_inv_def)
qed

lemma heights_word_depths:
  assumes "trie_inv pc t"
  shows "calculate_heights_recursive (root t) 0 = word_depths pc t"
proof -
  from assms have wf: "wf_node pc (root t)" and k: "key (root t) = []"
    by (simp_all add: trie_inv_def)
  let ?ws = "collect_words_from_node (root t) []"
  have "int (length (the (descend pc (root t) w))) = depth_of pc t w" if w: "w \<in> set ?ws" for w
  proof -
    from collect_descend[OF wf w] k obtain path where "descend pc (root t) w = Some path" by auto
    moreover from words_nonempty[OF assms] w have "w \<noteq> []" by auto
    ultimately show ?thesis by (simp add: depth_of_def find_node_def)
  qed
  then have "map (\<lambda>w. int (length (the (descend pc (root t) w)))) ?ws = map (depth_of pc t) ?ws"
    by (intro map_cong) simp_all
  with heights_descend[OF wf, of 0 "[]"] k show ?thesis
    by (simp add: word_depths_def words_with_prefix_def)
qed

lemma lengths_word_lengths:
  "collect_word_lengths_recursive (root t) 0 = word_lengths pc t"
  using lengths_words[of "root t" 0 "[]"]
  by (simp add: word_lengths_def words_with_prefix_def)

text \<open>
  Claim C2, as stated, fails: ties are broken by the iteration order of the
  \<open>std::unordered_map\<close> that holds the frequencies, and an unordered map need not
  enumerate its keys in ascending order.  With the two words \<open>"a"\<close> and \<open>"ab"\<close> (depths 1
  and 2, lengths 1 and 2, each once) and a map that enumerates the key inserted last
  first, both modes are 2, not the lowest value 1.
\<close>

theorem mode_not_lowest_counterexample:
  "reachable SignedChar (insert_trie SignedChar (insert_trie SignedChar empty_trie ''a'') ''ab'')
   \<and> \<not> empty (insert_trie SignedChar (insert_trie SignedChar empty_trie ''a'') ''ab'')
   \<and> iteration_order rev
   \<and> map_option mode_height
        (get_height_stats rev (insert_trie SignedChar (insert_trie SignedChar empty_trie ''a'') ''ab''))
       \<noteq> Some (lowest_mode (calculate_heights_recursive
            (root (insert_trie SignedChar (insert_trie SignedChar empty_trie ''a'') ''ab'')) 0))
   \<and> map_option mode_length
        (get_word_metrics rev (insert_trie SignedChar (insert_trie SignedChar empty_trie ''a'') ''ab''))
       \<noteq> Some (lowest_mode (collect_word_lengths_recursive
            (root (insert_trie SignedChar (insert_trie SignedChar empty_trie ''a'') ''ab'')) 0))
   \<and> calculate_heights_recursive
        (root (insert_trie SignedChar (insert_trie SignedChar empty_trie ''a'') ''ab'')) 0 = [1, 2]
   \<and> collect_word_lengths_recursive
        (root (insert_trie SignedChar (insert_trie SignedChar empty_trie ''a'') ''ab'')) 0 = [1, 2]
   \<and> lowest_mode [1, 2] = 1
   \<and> map_option mode_height
        (get_height_stats rev (insert_trie SignedChar (insert_trie SignedChar empty_trie ''a'') ''ab''))
       = Some 2
   \<and> map_option mode_length
        (get_word_metrics rev (insert_trie SignedChar (insert_trie SignedChar empty_trie ''a'') ''ab''))
       = Some 2"
proof -
  let ?t = "insert_trie SignedChar (insert_trie SignedChar empty_trie ''a'') ''ab''"
  have r: "reachable SignedChar ?t" by (intro reachable_insert reachable_init)
  have e: "\<not> empty ?t" by code_simp
  have i: "iteration_order rev" by (simp add: iteration_order_def)
  have h: "calculate_heights_recursive (root ?t) 0 = [1, 2]" by code_simp
  have l: "collect_word_lengths_recursive (root ?t) 0 = [1, 2]" by code_simp
  have m: "lowest_mode [1, 2] = 1" by code_simp
  have a: "map_option mode_height (get_height_stats rev ?t) = Some 2" by code_simp
  have b: "map_option mode_length (get_word_metrics rev ?t) = Some 2" by code_simp
  have a': "map_option mode_height (get_height_stats rev ?t)
       \<noteq> Some (lowest_mode (calculate_heights_recursive (root ?t) 0))"
    unfolding a h m by simp
  have b': "map_option mode_length (get_word_metrics rev ?t)
       \<noteq> Some (lowest_mode (collect_word_lengths_recursive (root ?t) 0))"
    unfolding b l m by simp
  from r e i a' b' h l m a b show ?thesis by (intro conjI)
qed

text \<open>
  Claim C2, amended.  On every non-empty reachable trie, \<open>words_with_prefix("")\<close>
  enumerates the stored words, each once; the values \<open>get_height_stats\<close> collects are the
  depths of their terminal nodes and the values \<open>get_word_metrics\<close> collects are their
  lengths.  Whenever the \<open>int\<close> arithmetic of the source is exact (no depth, length,
  counter or sum leaves the range of \<open>int\<close>), and for every iteration order of the
  frequency map, the mode returned by \<open>get_height_stats\<close> is a most frequent per-terminal
  depth and the mode returned by \<open>get_word_metrics\<close> is a most frequent word length;
  among the most frequent values it is the one the map enumerates first, which is the
  lowest one whenever the map enumerates its keys in ascending order.  Where the
  arithmetic is not exact, no result is defined.
\<close>

theorem mode_first_in_iteration_order:
  assumes "reachable pc t" "\<not> empty t" "iteration_order ord"
  shows "distinct (words_with_prefix pc t [])
    \<and> (\<forall>w. (w \<in> set (words_with_prefix pc t [])) = search pc t w)
    \<and> calculate_heights_recursive (root t) 0 = word_depths pc t
    \<and> collect_word_lengths_recursive (root t) 0 = word_lengths pc t
    \<and> (depths_fit (root t) 0 \<and> counts_fit (word_depths pc t) \<longrightarrow>
         (\<exists>h. get_height_stats ord t = Some h
            \<and> all_heights h = word_depths pc t
            \<and> most_frequent (word_depths pc t) (mode_height h)
            \<and> mode_height h
                = first_most_frequent (ord (inserted_keys (word_depths pc t))) (word_depths pc t)
            \<and> (sorted (ord (inserted_keys (word_depths pc t)))
                 \<longrightarrow> mode_height h = lowest_mode (word_depths pc t))))
    \<and> (\<not> (depths_fit (root t) 0 \<and> counts_fit (word_depths pc t))
         \<longrightarrow> get_height_stats ord t = None)
    \<and> (lengths_fit (root t) 0 \<and> sum_list (word_lengths pc t) \<le> int_max
          \<and> counts_fit (word_lengths pc t) \<and> max_element (word_lengths pc t) < int_max \<longrightarrow>
         (\<exists>m. get_word_metrics ord t = Some m
            \<and> most_frequent (word_lengths pc t) (mode_length m)
            \<and> mode_length m
                = first_most_frequent (ord (inserted_keys (word_lengths pc t))) (word_lengths pc t)
            \<and> (sorted (ord (inserted_keys (word_lengths pc t)))
                 \<longrightarrow> mode_length m = lowest_mode (word_lengths pc t))))
    \<and> (\<not> (lengths_fit (root t) 0 \<and> sum_list (word_lengths pc t) \<le> int_max
             \<and> counts_fit (word_lengths pc t) \<and> max_element (word_lengths pc t) < int_max)
         \<longrightarrow> get_word_metrics ord t = None)"
proof -
  let ?hs = "word_depths pc t"
  let ?ls = "word_lengths pc t"
  from assms(1) have inv: "trie_inv pc t" by (rule reachable_inv)
  have c1: "distinct (words_with_prefix pc t [])"
    using inv by (rule words_distinct)
  have c2: "\<forall>w. (w \<in> set (words_with_prefix pc t [])) = search pc t w"
    using words_search[OF inv] by blast
  have H: "calculate_heights_recursive (root t) 0 = ?hs"
    using inv by (rule heights_word_depths)
  have L: "collect_word_lengths_recursive (root t) 0 = ?ls"
    by (rule lengths_word_lengths)
  from inv assms(2) have "words_with_prefix pc t [] \<noteq> []"
    by (auto simp: trie_inv_def empty_def words_with_prefix_def)
  then have ne: "?hs \<noteq> []" "?ls \<noteq> []"
    by (simp_all add: word_depths_def word_lengths_def)
  note mh = mode_of_first[OF ne(1) assms(3)]
  note ml = mode_of_first[OF ne(2) assms(3)]
  have sh: "sorted (ord (inserted_keys ?hs)) \<longrightarrow>
      first_most_frequent (ord (inserted_keys ?hs)) ?hs = lowest_mode ?hs"
    using sorted_order_lowest[OF assms(3)] by blast
  have sl: "sorted (ord (inserted_keys ?ls)) \<longrightarrow>
      first_most_frequent (ord (inserted_keys ?ls)) ?ls = lowest_mode ?ls"
    using sorted_order_lowest[OF assms(3)] by blast
  have c5: "depths_fit (root t) 0 \<and> counts_fit ?hs \<longrightarrow>
         (\<exists>h. get_height_stats ord t = Some h
            \<and> all_heights h = ?hs
            \<and> most_frequent ?hs (mode_height h)
            \<and> mode_height h = first_most_frequent (ord (inserted_keys ?hs)) ?hs
            \<and> (sorted (ord (inserted_keys ?hs)) \<longrightarrow> mode_height h = lowest_mode ?hs))"
    using assms(2) ne(1) mh sh
    by (simp add: get_height_stats_def H Let_def)
  have c6: "\<not> (depths_fit (root t) 0 \<and> counts_fit ?hs) \<longrightarrow> get_height_stats ord t = None"
    using assms(2) by (auto simp: get_height_stats_def H Let_def)
  have c7: "lengths_fit (root t) 0 \<and> sum_list ?ls \<le> int_max
          \<and> counts_fit ?ls \<and> max_element ?ls < int_max \<longrightarrow>
         (\<exists>m. get_word_metrics ord t = Some m
            \<and> most_frequent ?ls (mode_length m)
            \<and> mode_length m = first_most_frequent (ord (inserted_keys ?ls)) ?ls
            \<and> (sorted (ord (inserted_keys ?ls)) \<longrightarrow> mode_length m = lowest_mode ?ls))"
    using assms(2) ne(2) ml sl
    by (simp add: get_word_metrics_def L Let_def)
  have c8: "\<not> (lengths_fit (root t) 0 \<and> sum_list ?ls \<le> int_max
             \<and> counts_fit ?ls \<and> max_element ?ls < int_max)
         \<longrightarrow> get_word_metrics ord t = None"
    using assms(2) by (auto simp: get_word_metrics_def L Let_def)
  from c1 c2 H L c5 c6 c7 c8 show ?thesis by (intro conjI)
qed

theorem mode_first_in_iteration_order_witness:
  "reachable SignedChar (insert_trie SignedChar (insert_trie SignedChar empty_trie ''a'') ''ab'')
   \<and> \<not> empty (insert_trie SignedChar (insert_trie SignedChar empty_trie ''a'') ''ab'')
   \<and> iteration_order sort \<and> iteration_order rev
   \<and> word_depths SignedChar
        (insert_trie SignedChar (insert_trie SignedChar empty_trie ''a'') ''ab'') = [1, 2]
   \<and> word_lengths SignedChar
        (insert_trie SignedChar (insert_trie SignedChar empty_trie ''a'') ''ab'') = [1, 2]
   \<and> depths_fit (root (insert_trie SignedChar (insert_trie SignedChar empty_trie ''a'') ''ab'')) 0
   \<and> lengths_fit (root (insert_trie SignedChar (insert_trie SignedChar empty_trie ''a'') ''ab'')) 0
   \<and> counts_fit [1, 2] \<and> sum_list [1, 2] \<le> int_max \<and> max_element [1, 2] < int_max
   \<and> map_option mode_height
        (get_height_stats sort (insert_trie SignedChar (insert_trie SignedChar empty_trie ''a'') ''ab''))
       = Some 1
   \<and> map_option mode_height
        (get_height_stats rev (insert_trie SignedChar (insert_trie SignedChar empty_trie ''a'') ''ab''))
       = Some 2
   \<and> map_option mode_length
        (get_word_metrics sort (insert_trie SignedChar (insert_trie SignedChar empty_trie ''a'') ''ab''))
       = Some 1
   \<and> map_option mode_length
        (get_word_metrics rev (insert_trie SignedChar (insert_trie SignedChar empty_trie ''a'') ''ab''))
       = Some 2"
proof -
  let ?t = "insert_trie SignedChar (insert_trie SignedChar empty_trie ''a'') ''ab''"
  have r: "reachable SignedChar ?t" by (intro reachable_insert reachable_init)
  have e: "\<not> empty ?t" by code_simp
  have i: "iteration_order rev" by (simp add: iteration_order_def)
  have j: "iteration_order sort" by (simp add: iteration_order_def)
  have d: "word_depths SignedChar ?t = [1, 2]" by code_simp
  have l: "word_lengths SignedChar ?t = [1, 2]" by code_simp
  have g: "depths_fit (root ?t) 0" "lengths_fit (root ?t) 0" by code_simp+
  have c: "counts_fit [1, 2]" "sum_list [1, 2] \<le> int_max" "max_element [1, 2] < int_max"
    by code_simp+
  have v: "first_most_frequent (rev (inserted_keys [1, 2])) [1, 2] = 2"
          "first_most_frequent (sort (inserted_keys [1, 2])) [1, 2] = 1"
    by code_simp+
  note R = mode_first_in_iteration_order[OF r e i, unfolded d l]
  note S = mode_first_in_iteration_order[OF r e j, unfolded d l]
  from R g c v have a1: "map_option mode_height (get_height_stats rev ?t) = Some 2"
    and a2: "map_option mode_length (get_word_metrics rev ?t) = Some 2" by auto
  from S g c v have b1: "map_option mode_height (get_height_stats sort ?t) = Some 1"
    and b2: "map_option mode_length (get_word_metrics sort ?t) = Some 1" by auto
  from r e i j d l g c a1 a2 b1 b2 show ?thesis by (intro conjI)
qed

end
